theory Spec2Isabelle
  imports Main
begin

section \<open>Runes and strings as Go has them\<close>

text \<open>
  A Go string is a sequence of bytes, here a \<^typ>\<open>string\<close> (a list of 8-bit
  \<^typ>\<open>char\<close>); \<open>len\<close> counts bytes. A rune is a code point, an \<^typ>\<open>int\<close>. The
  lexer reads its input through \<open>utf8.DecodeRuneInString\<close> and
  \<open>utf8.DecodeLastRuneInString\<close>, appends runes with \<open>string(r)\<close>, and classifies them
  with \<open>unicode.IsSpace\<close> and \<open>unicode.IsLetter\<close>. These belong to the Go standard
  library; they are written out here after its documented behaviour.
\<close>

type_synonym rune = int

definition RuneError :: rune where
  "RuneError = 65533"

definition eof :: rune where
  "eof = - 1"

definition void :: rune where
  "void = - 2"

definition charNewline :: rune where
  "charNewline = 10"

definition charDot :: rune where
  "charDot = 46"

definition charColon :: rune where
  "charColon = 58"

definition charOpeningSquare :: rune where
  "charOpeningSquare = 91"

definition charClosingSquare :: rune where
  "charClosingSquare = 93"

definition charBackslash :: rune where
  "charBackslash = 92"

definition charHyphen :: rune where
  "charHyphen = 45"

definition byte :: "char \<Rightarrow> int" where
  "byte c = of_char c"

text \<open>A continuation byte of UTF-8: \<open>0x80 .. 0xBF\<close>.\<close>

definition contByte :: "int \<Rightarrow> bool" where
  "contByte b = (128 \<le> b \<and> b \<le> 191)"

text \<open>
  \<open>utf8.DecodeRuneInString\<close>: the first rune of \<open>s\<close> and its width in bytes;
  \<open>(RuneError, 0)\<close> for the empty string and \<open>(RuneError, 1)\<close> for an invalid
  encoding. The accepted range of the second byte depends on the first one
  (\<open>0xE0\<close>, \<open>0xED\<close>, \<open>0xF0\<close> and \<open>0xF4\<close> narrow it).
\<close>

definition DecodeRuneInString :: "string \<Rightarrow> rune \<times> nat" where
  "DecodeRuneInString s =
     (case s of
        [] \<Rightarrow> (RuneError, 0)
      | c0 # _ \<Rightarrow>
          (let b0 = byte c0 in
           if b0 < 128 then (b0, 1)
           else if b0 < 194 \<or> 244 < b0 then (RuneError, 1)
           else
             (let sz = (if b0 < 224 then 2 else if b0 < 240 then 3 else (4::nat));
                  lo = (if b0 = 224 then 160 else if b0 = 240 then 144 else 128);
                  hi = (if b0 = 237 then 159 else if b0 = 244 then 143 else 191)
              in if length s < sz then (RuneError, 1)
                 else
                   (let b1 = byte (s ! 1) in
                    if b1 < lo \<or> hi < b1 then (RuneError, 1)
                    else if sz \<le> 2 then ((b0 mod 32) * 64 + b1 mod 64, 2)
                    else
                      (let b2 = byte (s ! 2) in
                       if \<not> contByte b2 then (RuneError, 1)
                       else if sz \<le> 3 then
                         ((b0 mod 16) * 4096 + (b1 mod 64) * 64 + b2 mod 64, 3)
                       else
                         (let b3 = byte (s ! 3) in
                          if \<not> contByte b3 then (RuneError, 1)
                          else ((b0 mod 8) * 262144 + (b1 mod 64) * 4096
                                  + (b2 mod 64) * 64 + b3 mod 64, 4)))))))"

text \<open>\<open>utf8.RuneStart\<close>: the byte is not a continuation byte.\<close>

definition RuneStart :: "char \<Rightarrow> bool" where
  "RuneStart c = (\<not> contByte (byte c))"

text \<open>
  The index at which \<open>utf8.DecodeLastRuneInString\<close> starts decoding: it walks back from
  \<open>len(s) - 2\<close> to \<open>lim = max(0, len(s) - 4)\<close> and stops at the first rune start; when
  there is none it ends at \<open>lim - 1\<close>, raised to \<open>0\<close> when negative.
\<close>

definition lastStart :: "string \<Rightarrow> nat" where
  "lastStart s =
     (let e = int (length s);
          lim = max 0 (e - 4)
      in case find (\<lambda>i. RuneStart (s ! nat i)) (filter (\<lambda>i. lim \<le> i) [e - 2, e - 3, e - 4]) of
           Some i \<Rightarrow> nat i
         | None \<Rightarrow> nat (max 0 (lim - 1)))"

definition DecodeLastRuneInString :: "string \<Rightarrow> rune \<times> nat" where
  "DecodeLastRuneInString s =
     (if s = [] then (RuneError, 0)
      else if byte (last s) < 128 then (byte (last s), 1)
      else
        (let start = lastStart s;
             (r, size) = DecodeRuneInString (drop start s)
         in if start + size \<noteq> length s then (RuneError, 1) else (r, size)))"

text \<open>
  The conversion \<open>string(r)\<close>: the UTF-8 encoding of \<open>r\<close>, and that of \<open>U+FFFD\<close> for a
  value that is no code point (negative, a surrogate, above \<open>U+10FFFF\<close>).
\<close>

definition runeString :: "rune \<Rightarrow> string" where
  "runeString r0 =
     (let r = (if r0 < 0 \<or> 1114111 < r0 \<or> (55296 \<le> r0 \<and> r0 \<le> 57343) then RuneError else r0)
      in if r < 128 then [char_of r]
         else if r < 2048 then [char_of (192 + r div 64), char_of (128 + r mod 64)]
         else if r < 65536 then
           [char_of (224 + r div 4096), char_of (128 + (r div 64) mod 64), char_of (128 + r mod 64)]
         else
           [char_of (240 + r div 262144), char_of (128 + (r div 4096) mod 64),
            char_of (128 + (r div 64) mod 64), char_of (128 + r mod 64)])"

text \<open>
  \<open>unicode.IsSpace\<close>: in Latin-1 the characters tab, newline, vertical tab, form feed,
  carriage return, space, \<open>U+0085\<close> and \<open>U+00A0\<close>; beyond it the \<open>White_Space\<close> property.
\<close>

definition IsSpace :: "rune \<Rightarrow> bool" where
  "IsSpace r =
     ((9 \<le> r \<and> r \<le> 13) \<or> r = 32 \<or> r = 133 \<or> r = 160 \<or> r = 5760
      \<or> (8192 \<le> r \<and> r \<le> 8202) \<or> r = 8232 \<or> r = 8233 \<or> r = 8239 \<or> r = 8287
      \<or> r = 12288)"

text \<open>
  \<open>unicode.IsLetter\<close>: in Latin-1 the letters \<open>A-Z\<close>, \<open>a-z\<close>, \<open>U+00AA\<close>, \<open>U+00B5\<close>,
  \<open>U+00BA\<close>, \<open>U+00C0-U+00D6\<close>, \<open>U+00D8-U+00F6\<close> and \<open>U+00F8-U+00FF\<close>. Beyond Latin-1 Go
  looks the rune up in its range table \<open>unicode.Letter\<close>, which is no part of this
  repository: the table is the parameter \<open>tbl\<close>.
\<close>

definition IsLetter :: "(rune \<Rightarrow> bool) \<Rightarrow> rune \<Rightarrow> bool" where
  "IsLetter tbl r =
     (if 0 \<le> r \<and> r \<le> 255 then
        (65 \<le> r \<and> r \<le> 90) \<or> (97 \<le> r \<and> r \<le> 122) \<or> r = 170 \<or> r = 181 \<or> r = 186
        \<or> (192 \<le> r \<and> r \<le> 214) \<or> (216 \<le> r \<and> r \<le> 246) \<or> 248 \<le> r
      else tbl r)"

text \<open>
  \<open>strings.TrimSpace\<close> removes the leading and the trailing runes that \<open>IsSpace\<close>
  accepts. The leading ones are found decoding forwards (\<open>strings.TrimLeftFunc\<close>), the
  trailing ones decoding backwards (\<open>strings.TrimRightFunc\<close>, which keeps the string up to
  the end of the last rune that is no space).
\<close>

lemma DecodeRuneInString_Nil: "DecodeRuneInString [] = (RuneError, 0)"
  by (simp add: DecodeRuneInString_def)

lemma DecodeRuneInString_pos: "s \<noteq> [] \<Longrightarrow> 0 < snd (DecodeRuneInString s)"
  by (cases s) (simp_all add: DecodeRuneInString_def Let_def)

lemma DecodeRuneInString_le: "snd (DecodeRuneInString s) \<le> length s"
  by (cases s) (auto simp: DecodeRuneInString_def Let_def Suc_le_eq not_less)

lemma DecodeRuneInString_zero:
  "snd (DecodeRuneInString s) = 0 \<Longrightarrow> fst (DecodeRuneInString s) = RuneError"
  using DecodeRuneInString_pos [of s] by (cases "s = []") (simp_all add: DecodeRuneInString_Nil)

lemma DecodeLastRuneInString_zero:
  "snd (DecodeLastRuneInString s) = 0 \<Longrightarrow> fst (DecodeLastRuneInString s) = RuneError"
  using DecodeRuneInString_zero [of "drop (lastStart s) s"]
  by (auto simp: DecodeLastRuneInString_def Let_def split: if_splits prod.splits)

lemma not_IsSpace_RuneError: "\<not> IsSpace RuneError"
  by (simp add: IsSpace_def RuneError_def)

function TrimLeftSpace :: "string \<Rightarrow> string" where
  "TrimLeftSpace s =
     (if s = [] then []
      else
        (let (r, size) = DecodeRuneInString s
         in if IsSpace r then TrimLeftSpace (drop size s) else s))"
  by pat_completeness auto
termination
proof (relation "measure length", simp)
  fix s :: string and x r size
  assume "s \<noteq> []" "x = DecodeRuneInString s" "(r, size) = x"
  then show "(drop size s, s) \<in> measure length"
    using DecodeRuneInString_pos [of s] by (cases "DecodeRuneInString s") auto
qed

function lastIndexNoSpace :: "string \<Rightarrow> nat \<Rightarrow> nat option" where
  "lastIndexNoSpace s i =
     (if i = 0 then None
      else
        (let (r, size) = DecodeLastRuneInString (take i s)
         in if IsSpace r then lastIndexNoSpace s (i - size) else Some (i - size)))"
  by pat_completeness auto
termination
proof (relation "measure snd", simp)
  fix s :: string and i :: nat and x r size
  assume "i \<noteq> 0" "x = DecodeLastRuneInString (take i s)" "(r, size) = x" "IsSpace r"
  then show "((s, i - size), s, i) \<in> measure snd"
    using DecodeLastRuneInString_zero [of "take i s"] not_IsSpace_RuneError
    by (cases "DecodeLastRuneInString (take i s)") (cases "size = 0", auto)
qed

definition TrimRightSpace :: "string \<Rightarrow> string" where
  "TrimRightSpace s =
     (case lastIndexNoSpace s (length s) of
        None \<Rightarrow> []
      | Some i \<Rightarrow>
          (if 128 \<le> byte (s ! i) then take (i + snd (DecodeRuneInString (drop i s))) s
           else take (i + 1) s))"

definition TrimSpace :: "string \<Rightarrow> string" where
  "TrimSpace s = TrimRightSpace (TrimLeftSpace s)"

section \<open>The lexer (lex.go)\<close>

datatype tokenType =
    typeNone | typeEOF | typeText | typeTerminator | typeHeading | typeTag
  | typeOpeningSquare | typeClosingSquare | typeBulletpoint

text \<open>
  A token. \<open>Pos\<close> and \<open>indent\<close> are Go \<open>int\<close>s that hold a byte offset and a count of
  skipped characters; neither is ever decreased below zero, they are naturals here.
\<close>

record token =
  Typ :: tokenType
  Val :: string
  Line :: int
  Pos :: nat
  indent :: nat

text \<open>The zero value \<open>token{}\<close>.\<close>

definition zeroToken :: token where
  "zeroToken = \<lparr>Typ = typeNone, Val = [], Line = 0, Pos = 0, indent = 0\<rparr>"

text \<open>The context: \<open>0\<close> (none) or \<open>ctxList\<close>.\<close>

datatype ctxType = ctxNone | ctxList

text \<open>
  The field \<open>lexNext\<close> holds one of the lexer's own methods or \<open>nil\<close>: the methods are
  named by a datatype, \<open>nil\<close> is \<open>None\<close>.
\<close>

datatype lexFn =
    LexGlobal | LexText | LexHeading | LexTerminator | LexTag
  | LexOpeningSquare | LexClosingSquare | LexHypen

text \<open>
  The lexer's state. \<open>letters\<close> is not a field of the Go struct: it is the range table
  \<open>unicode.Letter\<close> that \<open>addToTag\<close> consults through \<open>unicode.IsLetter\<close>.
\<close>

record lexer =
  input :: string
  line :: int
  pos :: nat
  token :: token
  char :: rune
  lexNext :: "lexFn option"
  skippedNewlines :: nat
  skippedSpace :: nat
  tag :: string
  continuousNewline :: bool
  ctx :: ctxType
  letters :: "rune \<Rightarrow> bool"

datatype panic = SliceBoundsOutOfRange | NilDereference

definition lex :: "(rune \<Rightarrow> bool) \<Rightarrow> string \<Rightarrow> lexer" where
  "lex tbl inp =
     \<lparr>input = inp, line = 1, pos = 0, token = zeroToken, char = 0, lexNext = Some LexGlobal,
      skippedNewlines = 0, skippedSpace = 0, tag = [], continuousNewline = False,
      ctx = ctxNone, letters = tbl\<rparr>"

definition mkToken :: "lexer \<Rightarrow> tokenType \<Rightarrow> string \<Rightarrow> token" where
  "mkToken l typ val = \<lparr>Typ = typ, Val = val, Line = line l, Pos = pos l, indent = 0\<rparr>"

definition resetToken :: "lexer \<Rightarrow> lexer" where
  "resetToken l = l\<lparr>token := zeroToken, continuousNewline := False, ctx := ctxNone\<rparr>"

definition addToTag :: "lexer \<Rightarrow> lexer" where
  "addToTag l =
     (if Typ (token l) \<noteq> typeText then l
      else if IsLetter (letters l) (char l) then l\<lparr>tag := tag l @ runeString (char l)\<rparr>
      else if IsSpace (char l) then l\<lparr>tag := []\<rparr>
      else l)"

definition peek :: "lexer \<Rightarrow> rune" where
  "peek l =
     (if pos l = length (input l) then eof
      else fst (DecodeRuneInString (drop (pos l) (input l))))"

text \<open>
  \<open>next\<close> and \<open>skipSpace\<close> call each other. \<open>skipSpace\<close> overwrites the byte before
  \<open>pos\<close> with a newline: \<open>l.input[:l.pos-1] + "\n" + l.input[l.pos:]\<close>.
\<close>

function lexer_next :: "lexer \<Rightarrow> lexer"
  and skipSpace :: "lexer \<Rightarrow> lexer" where
  "lexer_next l =
     (if length (input l) \<le> pos l \<or> length (input l) = 0 then l\<lparr>char := eof\<rparr>
      else
        (let (c, byteWidth) = DecodeRuneInString (drop (pos l) (input l));
             l1 = l\<lparr>pos := pos l + byteWidth\<rparr>;
             l2 = (if c = charNewline then l1\<lparr>line := line l1 + 1, skippedSpace := 0\<rparr> else l1);
             l3 = l2\<lparr>char := c\<rparr>
         in skipSpace (addToTag l3)))"
| "skipSpace l =
     (if IsSpace (char l) \<and> IsSpace (peek l) then
        (let l1 = l\<lparr>skippedSpace := skippedSpace l + 1\<rparr>;
             l2 = (if char l1 = charNewline then l1\<lparr>skippedNewlines := skippedNewlines l1 + 1\<rparr>
                   else l1)
         in lexer_next l2)
      else if 0 < skippedNewlines l \<and> IsSpace (char l) then
        (let l1 = (if char l = charNewline then l\<lparr>skippedNewlines := skippedNewlines l + 1\<rparr>
                   else l)
         in l1\<lparr>input := take (pos l1 - 1) (input l1) @ [CHR 0x0A] @ drop (pos l1) (input l1),
                char := charNewline\<rparr>)
      else l\<lparr>skippedNewlines := 0\<rparr>)"
  by pat_completeness auto

lemma addToTag_frame [simp]:
  "input (addToTag l) = input l" "pos (addToTag l) = pos l" "char (addToTag l) = char l"
  "token (addToTag l) = token l" "lexNext (addToTag l) = lexNext l" "line (addToTag l) = line l"
  "skippedNewlines (addToTag l) = skippedNewlines l" "skippedSpace (addToTag l) = skippedSpace l"
  "continuousNewline (addToTag l) = continuousNewline l" "ctx (addToTag l) = ctx l"
  "letters (addToTag l) = letters l"
  by (simp_all add: addToTag_def)

termination lexer_next
proof (relation "measure (\<lambda>x. case x of
    Inl l \<Rightarrow> 2 * (length (input l) - pos l)
  | Inr l \<Rightarrow> 2 * (length (input l) - pos l) + 1)", goal_cases)
  case 1
  show ?case by simp
next
  case (2 l x c byteWidth l1 l2 l3)
  have "0 < snd (DecodeRuneInString (drop (pos l) (input l)))"
    using 2(1) by (intro DecodeRuneInString_pos) simp
  with 2 show ?case by (cases "DecodeRuneInString (drop (pos l) (input l))") auto
next
  case (3 l l1 l2)
  then show ?case by simp
qed

declare lexer_next.simps [simp del] skipSpace.simps [simp del]


text \<open>
  One call of \<open>next\<close> below the end of the input moves \<open>pos\<close> forward and keeps the
  length of the buffer: the loops of the lexer end.
\<close>

lemma next_skipSpace_progress:
  "pos l < length (input l) \<longrightarrow>
     length (input (lexer_next l)) = length (input l) \<and> pos l < pos (lexer_next l)
     \<and> pos (lexer_next l) \<le> length (input l)"
  "0 < pos k \<and> pos k \<le> length (input k) \<longrightarrow>
     length (input (skipSpace k)) = length (input k) \<and> pos k \<le> pos (skipSpace k)
     \<and> pos (skipSpace k) \<le> length (input k)"
proof (induction l and k rule: lexer_next_skipSpace.induct)
  case (1 l)
  show ?case
  proof
    assume lt: "pos l < length (input l)"
    obtain c w where d: "DecodeRuneInString (drop (pos l) (input l)) = (c, w)"
      by (cases "DecodeRuneInString (drop (pos l) (input l))")
    have w: "0 < w" "w \<le> length (input l) - pos l"
      using DecodeRuneInString_pos [of "drop (pos l) (input l)"]
        DecodeRuneInString_le [of "drop (pos l) (input l)"] lt d by auto
    define l1 where "l1 = l\<lparr>pos := pos l + w\<rparr>"
    define l2 where "l2 = (if c = charNewline then l1\<lparr>line := line l1 + 1, skippedSpace := 0\<rparr> else l1)"
    define l3 where "l3 = l2\<lparr>char := c\<rparr>"
    have ne: "\<not> (length (input l) \<le> pos l \<or> length (input l) = 0)"
      using lt by auto
    have n: "lexer_next l = skipSpace (addToTag l3)"
      using ne d by (simp add: lexer_next.simps [of l] l3_def l2_def l1_def Let_def)
    have f: "pos (addToTag l3) = pos l + w" "input (addToTag l3) = input l"
      by (simp_all add: l3_def l2_def l1_def)
    note IH = "1.IH" [OF ne d [symmetric] refl l1_def l2_def l3_def]
    have "0 < pos (addToTag l3) \<and> pos (addToTag l3) \<le> length (input (addToTag l3))"
      using w lt f by simp
    with IH have "length (input (skipSpace (addToTag l3))) = length (input (addToTag l3))
       \<and> pos (addToTag l3) \<le> pos (skipSpace (addToTag l3))
       \<and> pos (skipSpace (addToTag l3)) \<le> length (input (addToTag l3))"
      by blast
    then show "length (input (lexer_next l)) = length (input l) \<and> pos l < pos (lexer_next l)
       \<and> pos (lexer_next l) \<le> length (input l)"
      using n f w by simp
  qed
next
  case (2 l)
  show ?case
  proof
    assume b: "0 < pos l \<and> pos l \<le> length (input l)"
    show "length (input (skipSpace l)) = length (input l) \<and> pos l \<le> pos (skipSpace l)
       \<and> pos (skipSpace l) \<le> length (input l)"
    proof (cases "IsSpace (char l) \<and> IsSpace (peek l)")
      case True
      define l1 where "l1 = l\<lparr>skippedSpace := skippedSpace l + 1\<rparr>"
      define l2 where "l2 = (if char l1 = charNewline then l1\<lparr>skippedNewlines := skippedNewlines l1 + 1\<rparr> else l1)"
      have s: "skipSpace l = lexer_next l2"
        using True by (simp add: skipSpace.simps [of l] l2_def l1_def Let_def)
      have f: "pos l2 = pos l" "input l2 = input l"
        by (simp_all add: l2_def l1_def)
      have "pos l \<noteq> length (input l)"
        using True by (auto simp: peek_def eof_def IsSpace_def)
      then have "pos l2 < length (input l2)"
        using b f by simp
      with "2.IH" [OF True l1_def l2_def] show ?thesis
        using s f by simp
    next
      case False
      then show ?thesis
        using b by (auto simp: skipSpace.simps [of l] Let_def)
    qed
  qed
qed


lemma next_at_end:
  "length (input l) \<le> pos l \<Longrightarrow> lexer_next l = l\<lparr>char := eof\<rparr>"
  by (simp add: lexer_next.simps [of l])

lemma next_not_eof:
  assumes "char (lexer_next l) \<noteq> eof"
  shows "pos l < length (input l)"
proof (rule ccontr)
  assume "\<not> pos l < length (input l)"
  then have "lexer_next l = l\<lparr>char := eof\<rparr>"
    by (intro next_at_end) simp
  with assms show False by simp
qed

lemma next_measure:
  "char (lexer_next l) = c \<Longrightarrow> c \<noteq> eof \<Longrightarrow>
     length (input (lexer_next l)) - pos (lexer_next l) < length (input l) - pos l"
  using next_skipSpace_progress(1) [of l] next_not_eof [of l] by auto

text \<open>\<open>backup\<close> steps back over the rune that ends at \<open>pos\<close>.\<close>

definition backup :: "lexer \<Rightarrow> lexer" where
  "backup l =
     (if pos l = 0 then l\<lparr>char := void\<rparr>
      else
        (let l1 = (if char l = charNewline then l\<lparr>line := line l - 1\<rparr> else l);
             (c, byteWidth) = DecodeLastRuneInString (take (pos l1) (input l1))
         in l1\<lparr>pos := pos l1 - byteWidth, char := c\<rparr>))"

text \<open>\<open>for range n { l.next() }\<close> and \<open>for range n { l.backup() }\<close>.\<close>

primrec nextN :: "nat \<Rightarrow> lexer \<Rightarrow> lexer" where
  "nextN 0 l = l"
| "nextN (Suc n) l = nextN n (lexer_next l)"

primrec backupN :: "nat \<Rightarrow> lexer \<Rightarrow> lexer" where
  "backupN 0 l = l"
| "backupN (Suc n) l = backupN n (backup l)"

definition peekBehind :: "lexer \<Rightarrow> rune" where
  "peekBehind l =
     (if pos l = 0 then void
      else if pos l = length (input l) then fst (DecodeLastRuneInString (input l))
      else fst (DecodeLastRuneInString (take (pos l - 1) (input l))))"

definition peekNextNonSpace :: "lexer \<Rightarrow> rune" where
  "peekNextNonSpace l =
     (if pos l = length (input l) then eof
      else fst (DecodeRuneInString (TrimSpace (drop (pos l) (input l)))))"

definition addToToken :: "lexer \<Rightarrow> rune \<Rightarrow> lexer" where
  "addToToken l c = l\<lparr>token := (token l)\<lparr>Val := Val (token l) @ runeString c\<rparr>\<rparr>"

text \<open>
  \<open>l.token.Val[:len(l.token.Val)-n]\<close>: Go panics when \<open>n\<close> exceeds the length.
\<close>

definition truncateToken :: "lexer \<Rightarrow> nat \<Rightarrow> panic + lexer" where
  "truncateToken l n =
     (if length (Val (token l)) < n then Inl SliceBoundsOutOfRange
      else Inr (l\<lparr>token := (token l)\<lparr>Val := take (length (Val (token l)) - n) (Val (token l))\<rparr>\<rparr>))"

definition trimTrailingSpace :: "lexer \<Rightarrow> lexer" where
  "trimTrailingSpace l =
     (if length (Val (token l)) = 0 then l
      else if IsSpace (peekBehind l) then
        l\<lparr>token := (token l)\<lparr>Val := take (length (Val (token l)) - 1) (Val (token l))\<rparr>\<rparr>
      else l)"

definition isHeadingChar :: "lexer \<Rightarrow> bool" where
  "isHeadingChar l = (if char l = charDot \<or> char l = charColon then True else False)"

definition lexGlobal :: "lexer \<Rightarrow> lexer" where
  "lexGlobal l0 =
     (let l = lexer_next (resetToken l0) in
      if char l = eof then l\<lparr>token := mkToken l typeEOF [], lexNext := None\<rparr>
      else if IsSpace (char l) then l\<lparr>lexNext := Some LexGlobal\<rparr>
      else if char l = charBackslash then (backup l)\<lparr>lexNext := Some LexText\<rparr>
      else if isHeadingChar l then (backup l)\<lparr>lexNext := Some LexHeading\<rparr>
      else if char l = charHyphen then (backup l)\<lparr>lexNext := Some LexHypen\<rparr>
      else (backup l)\<lparr>continuousNewline := True, lexNext := Some LexText\<rparr>)"

text \<open>
  The body of the \<open>for\<close> loop of \<open>lexText\<close>: every \<open>return\<close> of the source is a
  \<open>Done\<close>, every \<open>continue\<close> (and the end of the body) a \<open>Continue\<close> with the state the
  next turn starts from. The only panic is the one of \<open>truncateToken\<close>.
\<close>

datatype 'a loopStep = Done 'a | Continue lexer

definition lexTextStep :: "lexer \<Rightarrow> (panic + lexer) loopStep" where
  "lexTextStep l0 =
     (let l = lexer_next l0 in
      if char l = eof then Done (Inr ((trimTrailingSpace l)\<lparr>lexNext := Some LexGlobal\<rparr>))
      else if char l = charBackslash \<and> peek l \<noteq> charBackslash then Continue (l\<lparr>tag := []\<rparr>)
      else if peekBehind l = charBackslash then Continue (addToToken l (char l))
      else if char l = charNewline \<and> ctx l = ctxList then
        (if peekNextNonSpace l = charHyphen then Done (Inr (l\<lparr>lexNext := Some LexHypen\<rparr>))
         else Done (Inr (l\<lparr>lexNext := Some LexTerminator\<rparr>)))
      else if char l = charNewline \<and> (\<not> continuousNewline l \<or> 2 \<le> skippedNewlines l) then
        Done (Inr (l\<lparr>lexNext := Some LexTerminator\<rparr>))
      else if char l = charNewline \<and> continuousNewline l then Continue (addToToken l 32)
      else if char l = charOpeningSquare then
        (if length (tag l) = 0 then
           Done (Inr ((backup (trimTrailingSpace l))\<lparr>lexNext := Some LexOpeningSquare\<rparr>))
         else
           (let l1 = backupN (length (tag l)) l in
            case truncateToken l1 (length (tag l1)) of
              Inl e \<Rightarrow> Done (Inl e)
            | Inr l2 \<Rightarrow> Done (Inr ((backup (trimTrailingSpace l2))\<lparr>lexNext := Some LexTag\<rparr>))))
      else if char l = charClosingSquare \<and> peekBehind l \<noteq> charBackslash then
        Done (Inr ((backup (trimTrailingSpace l))\<lparr>lexNext := Some LexClosingSquare\<rparr>))
      else if Val (token l) = [] \<and> IsSpace (char l) then
        Continue (l\<lparr>token := mkToken l typeText []\<rparr>)
      else Continue (addToToken l (char l)))"

lemma addToToken_frame [simp]:
  "Typ (token (addToToken l c)) = Typ (token l)" "lexNext (addToToken l c) = lexNext l"
  "input (addToToken l c) = input l" "pos (addToToken l c) = pos l"
  "letters (addToToken l c) = letters l" "char (addToToken l c) = char l"
  "continuousNewline (addToToken l c) = continuousNewline l" "ctx (addToToken l c) = ctx l"
  by (simp_all add: addToToken_def)

lemma lexTextStep_Continue:
  assumes "lexTextStep l0 = Continue k"
  shows "input k = input (lexer_next l0) \<and> pos k = pos (lexer_next l0)
     \<and> char (lexer_next l0) \<noteq> eof"
  using assms
  by (simp add: lexTextStep_def Let_def split: if_splits sum.splits) auto

lemma lexTextStep_measure:
  "lexTextStep l0 = Continue k \<Longrightarrow> length (input k) - pos k < length (input l0) - pos l0"
  using lexTextStep_Continue [of l0 k] next_measure [of l0 "char (lexer_next l0)"] by simp

function lexTextLoop :: "lexer \<Rightarrow> panic + lexer" where
  "lexTextLoop l0 = (case lexTextStep l0 of Done r \<Rightarrow> r | Continue l \<Rightarrow> lexTextLoop l)"
  by pat_completeness auto
termination
  by (relation "measure (\<lambda>l. length (input l) - pos l)") (simp_all add: lexTextStep_measure)

declare lexTextLoop.simps [simp del]

text \<open>
  \<open>lexText\<close>: the deferred function turns a text token with an empty value into a
  token of type \<open>typeNone\<close>.
\<close>

definition lexText :: "lexer \<Rightarrow> panic + lexer" where
  "lexText l =
     (case lexTextLoop (l\<lparr>token := mkToken l typeText []\<rparr>) of
        Inl e \<Rightarrow> Inl e
      | Inr l' \<Rightarrow>
          Inr (if Val (token l') = [] then l'\<lparr>token := (token l')\<lparr>Typ := typeNone\<rparr>\<rparr> else l'))"

function lexHeadingLoop :: "lexer \<Rightarrow> lexer" where
  "lexHeadingLoop l0 =
     (let l = lexer_next l0 in
      if char l = eof then l\<lparr>lexNext := Some LexGlobal\<rparr>
      else if \<not> isHeadingChar l \<or> length (Val (token l)) = 3 then
        (backup l)\<lparr>lexNext := Some LexText\<rparr>
      else lexHeadingLoop (addToToken l (char l)))"
  by pat_completeness auto
termination
  by (relation "measure (\<lambda>l. length (input l) - pos l)")
    (auto simp: addToToken_def intro: next_measure)

declare lexHeadingLoop.simps [simp del]

definition lexHeading :: "lexer \<Rightarrow> lexer" where
  "lexHeading l = lexHeadingLoop (l\<lparr>token := mkToken l typeHeading []\<rparr>)"

definition lexTerminator :: "lexer \<Rightarrow> lexer" where
  "lexTerminator l0 =
     (let l = backup l0;
          l = l\<lparr>token := mkToken l typeTerminator [CHR 0x0A]\<rparr>;
          l = lexer_next l
      in l\<lparr>lexNext := Some LexGlobal\<rparr>)"

definition lexTag :: "lexer \<Rightarrow> lexer" where
  "lexTag l0 =
     (let l = l0\<lparr>token := mkToken l0 typeTag (tag l0)\<rparr>;
          l = nextN (length (tag l)) l
      in l\<lparr>tag := [], lexNext := Some LexOpeningSquare\<rparr>)"

definition lexOpeningSquare :: "lexer \<Rightarrow> lexer" where
  "lexOpeningSquare l0 =
     (let l = l0\<lparr>token := mkToken l0 typeOpeningSquare ''[''\<rparr>;
          l = lexer_next l
      in l\<lparr>lexNext := Some LexText\<rparr>)"

definition lexClosingSquare :: "lexer \<Rightarrow> lexer" where
  "lexClosingSquare l0 =
     (let l = l0\<lparr>token := mkToken l0 typeClosingSquare '']''\<rparr>;
          l = lexer_next l
      in l\<lparr>lexNext := Some LexText\<rparr>)"

definition lexHypen :: "lexer \<Rightarrow> lexer" where
  "lexHypen l0 =
     (let l = l0\<lparr>token := (mkToken l0 typeBulletpoint ''-'')\<lparr>indent := skippedSpace l0\<rparr>\<rparr>;
          l = lexer_next l;
          l = (if IsSpace (char l) then lexer_next l else l)
      in l\<lparr>ctx := ctxList, lexNext := Some LexText\<rparr>)"

text \<open>Calling the method that \<open>lexNext\<close> holds.\<close>

fun callLexFn :: "lexFn \<Rightarrow> lexer \<Rightarrow> panic + lexer" where
  "callLexFn LexGlobal l = Inr (lexGlobal l)"
| "callLexFn LexText l = lexText l"
| "callLexFn LexHeading l = Inr (lexHeading l)"
| "callLexFn LexTerminator l = Inr (lexTerminator l)"
| "callLexFn LexTag l = Inr (lexTag l)"
| "callLexFn LexOpeningSquare l = Inr (lexOpeningSquare l)"
| "callLexFn LexClosingSquare l = Inr (lexClosingSquare l)"
| "callLexFn LexHypen l = Inr (lexHypen l)"

lemma byte_nonneg [simp]: "0 \<le> byte c"
  using of_nat_of_char [of c, where ?'a = int] by (simp add: byte_def)

lemma DecodeRuneInString_nonneg: "0 \<le> fst (DecodeRuneInString s)"
  by (cases s) (simp_all add: DecodeRuneInString_def Let_def RuneError_def)

definition sameFrame :: "lexer \<Rightarrow> lexer \<Rightarrow> bool" where
  "sameFrame l l' = (token l' = token l \<and> lexNext l' = lexNext l
     \<and> continuousNewline l' = continuousNewline l \<and> ctx l' = ctx l \<and> letters l' = letters l)"

lemma next_skipSpace_frame:
  "sameFrame l (lexer_next l) \<and> (pos l < length (input l) \<longrightarrow> char (lexer_next l) \<noteq> eof)"
  "sameFrame k (skipSpace k) \<and> (char k \<noteq> eof \<longrightarrow> char (skipSpace k) \<noteq> eof)"
proof (induction l and k rule: lexer_next_skipSpace.induct)
  case (1 l)
  show ?case
  proof (cases "length (input l) \<le> pos l \<or> length (input l) = 0")
    case True
    then show ?thesis
      by (auto simp: lexer_next.simps [of l] sameFrame_def)
  next
    case ne: False
    obtain c w where d: "DecodeRuneInString (drop (pos l) (input l)) = (c, w)"
      by (cases "DecodeRuneInString (drop (pos l) (input l))")
    have c: "c \<noteq> eof"
      using DecodeRuneInString_nonneg [of "drop (pos l) (input l)"] d by (simp add: eof_def)
    define l1 where "l1 = l\<lparr>pos := pos l + w\<rparr>"
    define l2 where "l2 = (if c = charNewline then l1\<lparr>line := line l1 + 1, skippedSpace := 0\<rparr> else l1)"
    define l3 where "l3 = l2\<lparr>char := c\<rparr>"
    have n: "lexer_next l = skipSpace (addToTag l3)"
      using ne d by (simp add: lexer_next.simps [of l] l3_def l2_def l1_def Let_def)
    have f: "sameFrame l (addToTag l3)" "char (addToTag l3) = c"
      by (simp_all add: l3_def l2_def l1_def sameFrame_def)
    note IH = "1.IH" [OF ne d [symmetric] refl l1_def l2_def l3_def]
    show ?thesis
      using IH f c n by (simp add: sameFrame_def)
  qed
next
  case (2 l)
  show ?case
  proof (cases "IsSpace (char l) \<and> IsSpace (peek l)")
    case True
    define l1 where "l1 = l\<lparr>skippedSpace := skippedSpace l + 1\<rparr>"
    define l2 where "l2 = (if char l1 = charNewline then l1\<lparr>skippedNewlines := skippedNewlines l1 + 1\<rparr> else l1)"
    have s: "skipSpace l = lexer_next l2"
      using True by (simp add: skipSpace.simps [of l] l2_def l1_def Let_def)
    have f: "sameFrame l l2" "pos l2 = pos l" "input l2 = input l"
      by (simp_all add: l2_def l1_def sameFrame_def)
    have "pos l \<noteq> length (input l)"
      using True by (auto simp: peek_def eof_def IsSpace_def)
    moreover have "pos l \<le> length (input l) \<or> peek l = RuneError"
      by (cases "pos l \<le> length (input l)") (simp_all add: peek_def DecodeRuneInString_Nil)
    ultimately have "pos l2 < length (input l2)"
      using True f not_IsSpace_RuneError by auto
    with "2.IH" [OF True l1_def l2_def] show ?thesis
      using s f by (simp add: sameFrame_def)
  next
    case False
    then show ?thesis
      by (auto simp: skipSpace.simps [of l] Let_def sameFrame_def charNewline_def eof_def)
  qed
qed


lemmas next_frame = next_skipSpace_frame(1) [THEN conjunct1, unfolded sameFrame_def]

lemma next_token [simp]:
  "token (lexer_next l) = token l" "lexNext (lexer_next l) = lexNext l"
  "continuousNewline (lexer_next l) = continuousNewline l" "ctx (lexer_next l) = ctx l"
  "letters (lexer_next l) = letters l"
  using next_frame [of l] by simp_all

lemma next_eof:
  "char (lexer_next l) = eof \<Longrightarrow> length (input (lexer_next l)) \<le> pos (lexer_next l)"
  using next_skipSpace_frame(1) [of l] next_at_end [of l]
  by (cases "pos l < length (input l)") auto

lemma backup_frame [simp]:
  "token (backup l) = token l" "lexNext (backup l) = lexNext l" "input (backup l) = input l"
  "continuousNewline (backup l) = continuousNewline l" "ctx (backup l) = ctx l"
  "letters (backup l) = letters l" "tag (backup l) = tag l"
  by (simp_all add: backup_def Let_def split: prod.splits)

lemma nextN_token [simp]: "token (nextN n l) = token l"
  by (induction n arbitrary: l) simp_all

lemma backupN_frame [simp]:
  "token (backupN n l) = token l" "input (backupN n l) = input l" "tag (backupN n l) = tag l"
  by (induction n arbitrary: l) simp_all

lemma trimTrailingSpace_frame [simp]:
  "lexNext (trimTrailingSpace l) = lexNext l" "input (trimTrailingSpace l) = input l"
  "pos (trimTrailingSpace l) = pos l" "Typ (token (trimTrailingSpace l)) = Typ (token l)"
  by (simp_all add: trimTrailingSpace_def)

definition lexMeasure :: "lexer \<Rightarrow> nat" where
  "lexMeasure l =
     (case lexNext l of
        None \<Rightarrow> 0
      | Some LexGlobal \<Rightarrow> (if length (input l) \<le> pos l then 1 else 3 + (length (input l) - pos l))
      | Some LexText \<Rightarrow> 2
      | Some _ \<Rightarrow> 1)"

text \<open>A property that every turn of the loop keeps and every exit establishes holds at the end.\<close>

lemma lexTextLoop_rule:
  assumes "lexTextLoop l0 = Inr l'" and "I l0"
    and "\<And>l k. I l \<Longrightarrow> lexTextStep l = Continue k \<Longrightarrow> I k"
    and "\<And>l k. I l \<Longrightarrow> lexTextStep l = Done (Inr k) \<Longrightarrow> Q k"
  shows "Q l'"
  using assms(1,2)
proof (induction l0 rule: lexTextLoop.induct)
  case (1 l0)
  show ?case
  proof (cases "lexTextStep l0")
    case (Done r)
    with "1.prems"(1) have "r = Inr l'"
      by (simp add: lexTextLoop.simps [of l0])
    with Done "1.prems"(2) assms(4) show ?thesis by simp
  next
    case (Continue k)
    with "1.prems"(1) have "lexTextLoop k = Inr l'"
      by (simp add: lexTextLoop.simps [of l0])
    moreover have "I k"
      using assms(3) "1.prems"(2) Continue by blast
    ultimately show ?thesis
      using "1.IH" Continue by blast
  qed
qed

lemma lexTextStep_Done_measure:
  assumes "lexTextStep l = Done (Inr k)"
  shows "lexMeasure k = 1"
proof -
  have "char (lexer_next l) = eof \<Longrightarrow> length (input (lexer_next l)) \<le> pos (lexer_next l)"
    by (rule next_eof)
  with assms show ?thesis
    by (simp add: lexTextStep_def Let_def split: if_splits sum.splits)
      (auto simp: lexMeasure_def)
qed

lemma lexTextLoop_lexNext:
  "lexTextLoop l0 = Inr l' \<Longrightarrow> lexMeasure l' = 1"
  by (rule lexTextLoop_rule [where I = "\<lambda>l. True"]) (simp_all add: lexTextStep_Done_measure)

lemma lexHeadingLoop_Typ: "Typ (token (lexHeadingLoop l)) = Typ (token l)"
proof (induction l rule: lexHeadingLoop.induct)
  case (1 l0)
  show ?case
    using "1.IH" by (subst lexHeadingLoop.simps) (auto simp: Let_def addToToken_def)
qed

lemma lex_produces:
  "Typ (token (lexHeading l)) = typeHeading" "Typ (token (lexTerminator l)) = typeTerminator"
  "Typ (token (lexTag l)) = typeTag" "Typ (token (lexOpeningSquare l)) = typeOpeningSquare"
  "Typ (token (lexClosingSquare l)) = typeClosingSquare"
  "Typ (token (lexHypen l)) = typeBulletpoint"
  by (simp_all add: lexHeading_def lexHeadingLoop_Typ lexTerminator_def lexTag_def
      lexOpeningSquare_def lexClosingSquare_def lexHypen_def mkToken_def Let_def)

lemma lexGlobal_measure:
  "Typ (token (lexGlobal l)) = typeNone \<Longrightarrow>
     lexMeasure (lexGlobal l) < 3 + (length (input l) - pos l) \<and> pos l < length (input l)"
proof -
  assume t: "Typ (token (lexGlobal l)) = typeNone"
  define k where "k = lexer_next (resetToken l)"
  have r: "pos (resetToken l) = pos l" "input (resetToken l) = input l"
    by (simp_all add: resetToken_def)
  have ne: "char k \<noteq> eof"
    using t by (auto simp: lexGlobal_def k_def [symmetric] Let_def mkToken_def)
  then have lt: "pos l < length (input l)"
    using next_not_eof [of "resetToken l"] r by (simp add: k_def)
  then have p: "length (input k) = length (input l)" "pos l < pos k"
    using next_skipSpace_progress(1) [of "resetToken l"] r by (simp_all add: k_def)
  show ?thesis
    using ne p lt
    by (auto simp: lexGlobal_def k_def [symmetric] Let_def lexMeasure_def)
qed

lemma lexMeasure_token [simp]: "lexMeasure (l\<lparr>token := t\<rparr>) = lexMeasure l"
  by (simp add: lexMeasure_def split: option.splits lexFn.splits)

lemma lexMeasure_Global:
  "lexNext l = Some LexGlobal \<Longrightarrow> pos l < length (input l) \<Longrightarrow>
     lexMeasure l = 3 + (length (input l) - pos l)"
  by (simp add: lexMeasure_def)

lemma lexMeasure_Text: "lexNext l = Some LexText \<Longrightarrow> lexMeasure l = 2"
  by (simp add: lexMeasure_def)

lemma lexText_measure: "lexText l = Inr l' \<Longrightarrow> lexMeasure l' = 1"
  by (auto simp: lexText_def split: sum.splits if_splits dest!: lexTextLoop_lexNext)

text \<open>
  \<open>nextToken\<close> runs the method in \<open>lexNext\<close> and calls itself again while the
  token produced is of type \<open>typeNone\<close>; it returns \<open>false\<close> once \<open>lexNext\<close> is
  \<open>nil\<close>. The measure \<open>lexMeasure\<close> shows that the repetition ends.
\<close>

function nextToken :: "lexer \<Rightarrow> panic + bool \<times> lexer" where
  "nextToken l =
     (case lexNext l of
        None \<Rightarrow> Inr (False, l)
      | Some f \<Rightarrow>
          (case callLexFn f l of
             Inl e \<Rightarrow> Inl e
           | Inr l' \<Rightarrow> if Typ (token l') = typeNone then nextToken l' else Inr (True, l')))"
  by pat_completeness auto
termination
proof (relation "measure lexMeasure", goal_cases)
  case 1
  show ?case by simp
next
  case (2 l f l')
  show ?case
  proof (cases f)
    case LexGlobal
    with 2 show ?thesis
      using lexGlobal_measure [of l] by (auto simp: lexMeasure_Global)
  next
    case LexText
    with 2 show ?thesis
      using lexText_measure [of l l'] by (simp add: lexMeasure_Text)
  qed (use 2 lex_produces [of l] in auto)
qed


declare nextToken.simps [simp del]

text \<open>
  \<open>collectTokens\<close>: the loop \<open>for lexer.nextToken() { tokens = append(tokens, lexer.token) }\<close>,
  one unit of fuel for every turn.
\<close>

fun collectTokensLoop :: "nat \<Rightarrow> lexer \<Rightarrow> token list \<Rightarrow> (panic + token list) option" where
  "collectTokensLoop 0 l tokens = None"
| "collectTokensLoop (Suc n) l tokens =
     (case nextToken l of
        Inl e \<Rightarrow> Some (Inl e)
      | Inr (running, l') \<Rightarrow>
          if running then collectTokensLoop n l' (tokens @ [token l']) else Some (Inr tokens))"

definition collectTokens :: "(rune \<Rightarrow> bool) \<Rightarrow> nat \<Rightarrow> string \<Rightarrow> (panic + token list) option" where
  "collectTokens tbl n inp = collectTokensLoop n (lex tbl inp) []"

text \<open>A caller that calls \<open>nextToken\<close> \<open>n\<close> times, whatever it returns.\<close>

primrec advance :: "nat \<Rightarrow> lexer \<Rightarrow> panic + lexer" where
  "advance 0 l = Inr l"
| "advance (Suc n) l = (case nextToken l of Inl e \<Rightarrow> Inl e | Inr (running, l') \<Rightarrow> advance n l')"

text \<open>
  A table with no letter beyond Latin-1, for the examples: their inputs are ASCII, and the
  table is not consulted for a rune below \<open>U+0100\<close>.
\<close>

definition onlyLatin1 :: "rune \<Rightarrow> bool" where
  "onlyLatin1 r = False"

text \<open>The type and the value of each token of a result, for the examples.\<close>

definition typVals :: "(panic + token list) option \<Rightarrow> (panic + (tokenType \<times> string) list) option" where
  "typVals r = map_option (map_sum id (map (\<lambda>t. (Typ t, Val t)))) r"

section \<open>The document tree (node.go)\<close>

text \<open>
  A node of the tree: its type, its value and its children in order. The field \<open>parent\<close>
  of the Go struct is used while the tree is built only; it is the rest of the list
  \<open>currentNode\<close> of the parser below.
\<close>

datatype Node = Node (nodeTyp: string) (nodeVal: string) (Children: "Node list")

definition INDENT_WIDTH :: nat where
  "INDENT_WIDTH = 2"

definition nodeRoot :: string where "nodeRoot = ''Root''"
definition nodeError :: string where "nodeError = ''ERROR''"
definition nodeHeadingOne :: string where "nodeHeadingOne = ''HeadingOne''"
definition nodeHeadingTwo :: string where "nodeHeadingTwo = ''HeadingTwo''"
definition nodeHeadingThree :: string where "nodeHeadingThree = ''HeadingThree''"
definition nodeHeadingFour :: string where "nodeHeadingFour = ''HeadingFour''"
definition nodeHeadingFive :: string where "nodeHeadingFive = ''HeadingFive''"
definition nodeHeadingSix :: string where "nodeHeadingSix = ''HeadingSix''"
definition nodeParagraph :: string where "nodeParagraph = ''Paragraph''"
definition nodeText :: string where "nodeText = ''Text''"
definition nodeBoldTag :: string where "nodeBoldTag = ''BoldTag''"
definition nodeItalicTag :: string where "nodeItalicTag = ''ItalicTag''"
definition nodeList :: string where "nodeList = ''List''"
definition nodeListItem :: string where "nodeListItem = ''ListItem''"

definition nodeHeadingOneValue :: string where "nodeHeadingOneValue = ''.''"
definition nodeHeadingTwoValue :: string where "nodeHeadingTwoValue = '':''"
definition nodeHeadingThreeValue :: string where "nodeHeadingThreeValue = '':.''"
definition nodeHeadingFourValue :: string where "nodeHeadingFourValue = ''::''"
definition nodeHeadingFiveValue :: string where "nodeHeadingFiveValue = ''::.''"
definition nodeHeadingSixValue :: string where "nodeHeadingSixValue = '':::''"

definition errInvalidTag :: string where "errInvalidTag = ''Invalid tag name''"
definition errInvalidHeading :: string where "errInvalidHeading = ''Invalid heading value''"

text \<open>\<open>listItem.indent / INDENT_WIDTH\<close>, the integer division of Go on a value that is not negative.\<close>

definition getListItemDepth :: "token \<Rightarrow> nat" where
  "getListItemDepth listItem = indent listItem div INDENT_WIDTH"

section \<open>The parser\<close>

text \<open>
  The parser builds the tree in place: \<open>addNewNode\<close> appends a node to the children of
  the current node and makes it the current node, \<open>returnNode\<close> follows the \<open>parent\<close>
  pointer. A node only changes while it is the current node or the last child of the
  current node, so the tree under construction is kept as the list \<open>currentNode\<close>: the
  current node, its parent, and so on up to the root \<open>p.tree\<close>, each one holding the
  children that are complete and not yet the node in front of it in the list, which is
  its last child in the Go tree. The empty list is the \<open>nil\<close> that \<open>returnNode\<close> leaves
  when called on the root; \<open>tree\<close> then holds the root. The fields \<open>input\<close>, \<open>error\<close>
  and \<open>ctx\<close> of the Go struct are never read by \<open>Parse\<close> and are left out.
\<close>

record parser =
  tree :: Node
  lexer :: lexer
  currentNode :: "Node list"
  tagDepth :: nat
  collectedTokens :: "token list"

text \<open>The node \<open>p.tree\<close> points to: every open node is the last child of its parent.\<close>

fun plug :: "Node \<Rightarrow> Node list \<Rightarrow> Node" where
  "plug c [] = c"
| "plug c (Node t v cs # ns) = plug (Node t v (cs @ [c])) ns"

definition treeOf :: "parser \<Rightarrow> Node" where
  "treeOf p = (case currentNode p of [] \<Rightarrow> tree p | c # ns \<Rightarrow> plug c ns)"

definition addNewNode :: "parser \<Rightarrow> string \<Rightarrow> string \<Rightarrow> panic + parser" where
  "addNewNode p typ val =
     (case currentNode p of
        [] \<Rightarrow> Inl NilDereference
      | c # ns \<Rightarrow> Inr (p\<lparr>currentNode := Node typ val [] # c # ns\<rparr>))"

definition previousSibling :: "parser \<Rightarrow> panic + Node" where
  "previousSibling p =
     (case currentNode p of
        [] \<Rightarrow> Inl NilDereference
      | c # ns \<Rightarrow> Inr (if 0 < length (Children c) then last (Children c) else Node [] [] []))"

definition parser_nextToken :: "parser \<Rightarrow> panic + parser" where
  "parser_nextToken p =
     (case nextToken (lexer p) of
        Inl e \<Rightarrow> Inl e
      | Inr (running, l) \<Rightarrow> Inr (p\<lparr>lexer := l, collectedTokens := collectedTokens p @ [token l]\<rparr>))"

definition returnNode :: "parser \<Rightarrow> panic + parser" where
  "returnNode p =
     (case currentNode p of
        [] \<Rightarrow> Inl NilDereference
      | [c] \<Rightarrow> Inr (p\<lparr>currentNode := [], tree := c\<rparr>)
      | c # Node t v cs # ns \<Rightarrow> Inr (p\<lparr>currentNode := Node t v (cs @ [c]) # ns\<rparr>))"

definition isOneOf :: "parser \<Rightarrow> tokenType list \<Rightarrow> bool" where
  "isOneOf p t = List.member t (Typ (token (lexer p)))"

text \<open>Sequencing of steps that may panic, and of steps that may also run out of fuel.\<close>

definition andThen :: "panic + 'a \<Rightarrow> ('a \<Rightarrow> panic + 'b) \<Rightarrow> panic + 'b" where
  "andThen m f = (case m of Inl e \<Rightarrow> Inl e | Inr x \<Rightarrow> f x)"

definition andThenF :: "(panic + 'a) option \<Rightarrow> ('a \<Rightarrow> (panic + 'b) option) \<Rightarrow> (panic + 'b) option" where
  "andThenF m f = (case m of None \<Rightarrow> None | Some (Inl e) \<Rightarrow> Some (Inl e) | Some (Inr x) \<Rightarrow> f x)"

text \<open>
  \<open>parseText\<close>: a text token after a text node is appended to that node's value behind
  one space; otherwise it becomes a new text node.
\<close>

definition parseText :: "parser \<Rightarrow> panic + parser" where
  "parseText p =
     andThen (previousSibling p) (\<lambda>prev.
       if nodeTyp prev = nodeText then
         (case currentNode p of
            [] \<Rightarrow> Inl NilDereference
          | Node t v cs # ns \<Rightarrow>
              Inr (p\<lparr>currentNode :=
                     Node t v (butlast cs @
                       [Node (nodeTyp prev) (nodeVal prev @ '' '' @ Val (token (lexer p)))
                          (Children prev)]) # ns\<rparr>))
       else andThen (addNewNode p nodeText (Val (token (lexer p)))) returnNode)"

text \<open>
  The recursive productions take fuel: one unit for every call and every turn of a
  loop. \<open>None\<close> says that the fuel ran out, \<open>Some (Inl e)\<close> that the Go code panics.
\<close>

fun parseRichText :: "nat \<Rightarrow> parser \<Rightarrow> (panic + parser) option"
  and parseTag :: "nat \<Rightarrow> parser \<Rightarrow> (panic + parser) option" where
  "parseRichText 0 p = None"
| "parseRichText (Suc n) p =
     (if isOneOf p [typeBulletpoint, typeTerminator, typeEOF] then Some (Inr p)
      else if Typ (token (lexer p)) = typeText then
        andThenF (Some (andThen (parseText p) parser_nextToken)) (parseRichText n)
      else if Typ (token (lexer p)) = typeTag then
        andThenF (parseTag n p) (\<lambda>p1.
          if 0 < tagDepth p1 \<and> isOneOf p1 [typeBulletpoint, typeTerminator] then Some (Inr p1)
          else andThenF (Some (parser_nextToken p1)) (parseRichText n))
      else if Typ (token (lexer p)) = typeClosingSquare \<and> 0 < tagDepth p then
        Some (Inr (p\<lparr>tagDepth := tagDepth p - 1\<rparr>))
      else andThenF (Some (parser_nextToken p)) (parseRichText n))"
| "parseTag 0 p = None"
| "parseTag (Suc n) p =
     andThenF
       (Some (andThen
          (if Val (token (lexer p)) = ''bold'' then addNewNode p nodeBoldTag []
           else if Val (token (lexer p)) = ''italic'' then addNewNode p nodeItalicTag []
           else addNewNode p nodeError (errInvalidTag @ '': '' @ Val (token (lexer p))))
          (\<lambda>p1. andThen (parser_nextToken p1) (\<lambda>p2. Inr (p2\<lparr>tagDepth := tagDepth p2 + 1\<rparr>)))))
       (\<lambda>p3. andThenF (parseRichText n p3) (\<lambda>p4. Some (returnNode p4)))"

definition parseParagraph :: "nat \<Rightarrow> parser \<Rightarrow> (panic + parser) option" where
  "parseParagraph n p =
     andThenF (Some (addNewNode p nodeParagraph []))
       (\<lambda>p1. andThenF (parseRichText n p1) (\<lambda>p2. Some (returnNode p2)))"

definition parseHeading :: "nat \<Rightarrow> parser \<Rightarrow> (panic + parser) option" where
  "parseHeading n p =
     andThenF
       (Some (andThen
          (let v = Val (token (lexer p)) in
           if v = nodeHeadingOneValue then addNewNode p nodeHeadingOne nodeHeadingOneValue
           else if v = nodeHeadingTwoValue then addNewNode p nodeHeadingTwo nodeHeadingTwoValue
           else if v = nodeHeadingThreeValue then addNewNode p nodeHeadingThree nodeHeadingThreeValue
           else if v = nodeHeadingFourValue then addNewNode p nodeHeadingFour nodeHeadingFourValue
           else if v = nodeHeadingFiveValue then addNewNode p nodeHeadingFive nodeHeadingFiveValue
           else if v = nodeHeadingSixValue then addNewNode p nodeHeadingSix nodeHeadingSixValue
           else addNewNode p nodeError (errInvalidHeading @ '': '' @ v))
          parser_nextToken))
       (\<lambda>p1. andThenF (parseRichText n p1) (\<lambda>p2. Some (returnNode p2)))"

definition parseListItem :: "nat \<Rightarrow> parser \<Rightarrow> (panic + parser) option" where
  "parseListItem n p =
     andThenF (Some (addNewNode p nodeListItem []))
       (\<lambda>p1. andThenF (parseRichText n p1) (\<lambda>p2. Some (returnNode p2)))"

text \<open>
  \<open>parseList\<close> and its \<open>for\<close> loop. The loop assigns the depth of the bullet it is at
  to \<open>currentListDepth\<close> before anything else, so the loop needs no depth of its own.
\<close>

fun parseList :: "nat \<Rightarrow> parser \<Rightarrow> nat \<Rightarrow> (panic + parser) option"
  and parseListLoop :: "nat \<Rightarrow> parser \<Rightarrow> (panic + parser) option" where
  "parseList 0 p currentListDepth = None"
| "parseList (Suc n) p currentListDepth =
     (if isOneOf p [typeBulletpoint] \<and> getListItemDepth (token (lexer p)) < currentListDepth then
        Some (returnNode p)
      else andThenF (Some (addNewNode p nodeList [])) (parseListLoop n))"
| "parseListLoop 0 p = None"
| "parseListLoop (Suc n) p =
     (if \<not> isOneOf p [typeBulletpoint] then Some (returnNode p)
      else
        (let currentListDepth = getListItemDepth (token (lexer p)) in
         andThenF (Some (parser_nextToken p)) (\<lambda>p1.
         andThenF (parseListItem n p1) (\<lambda>p2.
         andThenF
           (let p3 = p2\<lparr>tagDepth := 0\<rparr> in
            if isOneOf p3 [typeBulletpoint] \<and> currentListDepth < getListItemDepth (token (lexer p3))
            then parseList n p3 (getListItemDepth (token (lexer p3)))
            else Some (Inr p3))
           (\<lambda>p4.
              if isOneOf p4 [typeBulletpoint] \<and> getListItemDepth (token (lexer p4)) < currentListDepth
              then Some (returnNode p4)
              else parseListLoop n p4)))))"

fun parseGlobalLoop :: "nat \<Rightarrow> parser \<Rightarrow> (panic + parser) option" where
  "parseGlobalLoop 0 p = None"
| "parseGlobalLoop (Suc n) p =
     (if isOneOf p [typeEOF] then Some (Inr p)
      else
        andThenF
          (if Typ (token (lexer p)) = typeHeading then parseHeading n p
           else if Typ (token (lexer p)) = typeBulletpoint then parseList n p 0
           else parseParagraph n p)
          (\<lambda>p1. andThenF (Some (parser_nextToken p1)) (parseGlobalLoop n)))"

definition parseGlobal :: "nat \<Rightarrow> parser \<Rightarrow> (panic + parser) option" where
  "parseGlobal n p =
     andThenF (Some (parser_nextToken (p\<lparr>tagDepth := 0\<rparr>))) (parseGlobalLoop n)"

text \<open>
  \<open>Parse\<close> returns \<open>p.tree\<close>. The receiver \<open>p\<close> comes from \<open>New()\<close> or from an earlier
  call; \<open>Parse\<close> overwrites every field it reads but \<open>tagDepth\<close>, which \<open>parseGlobal\<close>
  sets to zero at once.
\<close>

definition Parse :: "(rune \<Rightarrow> bool) \<Rightarrow> nat \<Rightarrow> string \<Rightarrow> (panic + Node) option" where
  "Parse tbl n inp =
     andThenF
       (parseGlobal n
          \<lparr>tree = Node nodeRoot [] [], lexer = lex tbl inp, currentNode = [Node nodeRoot [] []],
           tagDepth = 0, collectedTokens = []\<rparr>)
       (\<lambda>p. Some (Inr (treeOf p)))"

section \<open>Facts about the lexer\<close>

lemma truncateToken_frame:
  "truncateToken l n = Inr l2 \<Longrightarrow>
     Typ (token l2) = Typ (token l) \<and> input l2 = input l \<and> pos l2 = pos l
     \<and> lexNext l2 = lexNext l \<and> letters l2 = letters l"
  by (auto simp: truncateToken_def split: if_splits)

lemma lexTextStep_Typ_Continue:
  assumes "lexTextStep l = Continue k" "Typ (token l) = typeText"
  shows "Typ (token k) = typeText"
proof -
  have "Typ (token (lexer_next l)) = typeText"
    using assms(2) by simp
  with assms(1) show ?thesis
    by (simp add: lexTextStep_def Let_def split: if_splits sum.splits)
      (auto simp: mkToken_def)
qed

lemma lexTextStep_Typ_Done:
  assumes "lexTextStep l = Done (Inr k)" "Typ (token l) = typeText"
  shows "Typ (token k) = typeText"
proof -
  have "Typ (token (lexer_next l)) = typeText"
    using assms(2) by simp
  with assms(1) show ?thesis
    by (simp add: lexTextStep_def Let_def split: if_splits sum.splits)
      (auto dest: truncateToken_frame)
qed

lemma lexTextLoop_Typ:
  "lexTextLoop l0 = Inr l' \<Longrightarrow> Typ (token l0) = typeText \<Longrightarrow> Typ (token l') = typeText"
  by (rule lexTextLoop_rule [where I = "\<lambda>l. Typ (token l) = typeText"])
    (simp_all add: lexTextStep_Typ_Continue lexTextStep_Typ_Done)

lemma lexText_Typ:
  "lexText l = Inr l' \<Longrightarrow> Typ (token l') = typeText \<or> Typ (token l') = typeNone"
  by (auto simp: lexText_def mkToken_def split: sum.splits if_splits dest!: lexTextLoop_Typ)

lemma lexGlobal_EOF:
  "Typ (token (lexGlobal l)) = typeEOF \<Longrightarrow> lexNext (lexGlobal l) = None"
  by (auto simp: lexGlobal_def Let_def resetToken_def zeroToken_def split: if_splits)

lemma callLexFn_EOF:
  "callLexFn f l = Inr l' \<Longrightarrow> Typ (token l') = typeEOF \<Longrightarrow> lexNext l' = None"
  using lex_produces [of l] lexGlobal_EOF [of l] lexText_Typ [of l l']
  by (cases f) auto

lemma nextToken_EOF:
  "nextToken l = Inr (running, l') \<Longrightarrow> Typ (token l') = typeEOF \<Longrightarrow>
     lexNext l = None \<or> lexNext l' = None"
proof (induction l rule: nextToken.induct)
  case (1 l)
  show ?case
  proof (cases "lexNext l")
    case None
    then show ?thesis by simp
  next
    case (Some f)
    show ?thesis
    proof (cases "callLexFn f l")
      case (Inl e)
      with Some "1.prems" show ?thesis by (simp add: nextToken.simps [of l])
    next
      case (Inr l1)
      show ?thesis
      proof (cases "Typ (token l1) = typeNone")
        case True
        with Some Inr "1.prems" have n: "nextToken l1 = Inr (running, l')"
          by (simp add: nextToken.simps [of l])
        have "lexNext l1 = None \<or> lexNext l' = None"
          using "1.IH" [OF Some Inr True n "1.prems"(2)] .
        moreover have "lexNext l1 = None \<Longrightarrow> l' = l1"
          using n by (simp add: nextToken.simps [of l1])
        ultimately show ?thesis by auto
      next
        case False
        with Some Inr "1.prems" have "l' = l1"
          by (simp add: nextToken.simps [of l])
        with Inr "1.prems"(2) show ?thesis
          using callLexFn_EOF [of f l l1] by simp
      qed
    qed
  qed
qed

lemma nextToken_nil: "lexNext l = None \<Longrightarrow> nextToken l = Inr (False, l)"
  by (simp add: nextToken.simps [of l])

lemma advance_nil: "lexNext l = None \<Longrightarrow> advance k l = Inr l"
  by (induction k) (simp_all add: nextToken_nil)

lemma nextToken_EOF_nil:
  assumes "nextToken l = Inr (running, l')" "Typ (token l') = typeEOF"
  shows "lexNext l' = None"
proof (cases "lexNext l = None")
  case True
  with assms(1) have "l' = l" by (simp add: nextToken_nil)
  with True show ?thesis by simp
next
  case False
  with nextToken_EOF [OF assms] show ?thesis by simp
qed


section \<open>The text-merge invariant of the parser\<close>

text \<open>
  \<open>adjacentText cs\<close>: two consecutive nodes of \<open>cs\<close> are text nodes. \<open>textMerged n\<close>: no
  node of the tree \<open>n\<close> has two consecutive text children. While the parser runs the
  property is about the open nodes too: none of them is a text node (\<open>openNode\<close>).
\<close>

fun adjacentText :: "Node list \<Rightarrow> bool" where
  "adjacentText (a # b # ns) =
     ((nodeTyp a = nodeText \<and> nodeTyp b = nodeText) \<or> adjacentText (b # ns))"
| "adjacentText [a] = False"
| "adjacentText [] = False"

fun textMerged :: "Node \<Rightarrow> bool" where
  "textMerged (Node t v cs) = (\<not> adjacentText cs \<and> list_all textMerged cs)"

definition openNode :: "Node \<Rightarrow> bool" where
  "openNode n = (nodeTyp n \<noteq> nodeText \<and> textMerged n)"

definition parserInv :: "parser \<Rightarrow> bool" where
  "parserInv p = (list_all openNode (currentNode p) \<and> textMerged (tree p))"

lemma andThen_Inr: "andThen m f = Inr y \<longleftrightarrow> (\<exists>x. m = Inr x \<and> f x = Inr y)"
  by (cases m) (simp_all add: andThen_def)

lemma andThenF_Some:
  "andThenF m f = Some (Inr y) \<longleftrightarrow> (\<exists>x. m = Some (Inr x) \<and> f x = Some (Inr y))"
  by (cases m rule: option.exhaust; cases "the m") (auto simp: andThenF_def)

lemma adjacentText_snoc:
  "adjacentText (cs @ [c]) \<longleftrightarrow>
     adjacentText cs \<or> (cs \<noteq> [] \<and> nodeTyp (last cs) = nodeText \<and> nodeTyp c = nodeText)"
  by (induction cs rule: adjacentText.induct) auto

lemma textMerged_plug:
  "openNode c \<Longrightarrow> list_all openNode ns \<Longrightarrow> textMerged (plug c ns)"
proof (induction c ns rule: plug.induct)
  case (1 c)
  then show ?case by (simp add: openNode_def)
next
  case (2 c t v cs ns)
  have "openNode (Node t v (cs @ [c]))"
    using "2.prems" by (auto simp: openNode_def adjacentText_snoc)
  with 2 show ?case by simp
qed

lemma addNewNode_inv:
  "addNewNode p typ val = Inr p' \<Longrightarrow> typ \<noteq> nodeText \<Longrightarrow> parserInv p \<Longrightarrow> parserInv p'"
  by (auto simp: addNewNode_def parserInv_def openNode_def split: list.splits)

lemma returnNode_inv:
  "returnNode p = Inr p' \<Longrightarrow> parserInv p \<Longrightarrow> parserInv p'"
  by (auto simp: returnNode_def parserInv_def openNode_def adjacentText_snoc
      split: list.splits Node.splits)

lemma parser_nextToken_inv:
  "parser_nextToken p = Inr p' \<Longrightarrow> parserInv p \<Longrightarrow> parserInv p'"
  by (auto simp: parser_nextToken_def parserInv_def split: sum.splits prod.splits)

lemma tagDepth_inv [simp]: "parserInv (p\<lparr>tagDepth := d\<rparr>) = parserInv p"
  by (simp add: parserInv_def)


lemma adjacentText_replace_last:
  "cs \<noteq> [] \<Longrightarrow> nodeTyp c = nodeTyp (last cs) \<Longrightarrow>
     adjacentText (butlast cs @ [c]) = adjacentText cs"
  by (induction cs rule: adjacentText.induct) auto

lemma list_all_butlast: "list_all P cs \<Longrightarrow> list_all P (butlast cs)"
  by (induction cs) auto

lemma list_all_last: "list_all P cs \<Longrightarrow> cs \<noteq> [] \<Longrightarrow> P (last cs)"
  by (induction cs) auto

lemma parseText_inv:
  assumes "parseText p = Inr p'" "parserInv p"
  shows "parserInv p'"
proof (cases "currentNode p")
  case Nil
  with assms(1) show ?thesis
    by (simp add: parseText_def previousSibling_def andThen_def)
next
  case (Cons c ns)
  obtain t v cs where c: "c = Node t v cs" by (cases c)
  have inv: "t \<noteq> nodeText" "\<not> adjacentText cs" "list_all textMerged cs" "list_all openNode ns"
    "textMerged (tree p)"
    using assms(2) Cons c by (simp_all add: parserInv_def openNode_def)
  show ?thesis
  proof (cases "cs = []")
    case True
    have "nodeText \<noteq> []" by (simp add: nodeText_def)
    with True Cons c assms(1) have
      "p' = p\<lparr>currentNode := Node t v [Node nodeText (Val (token (lexer p))) []] # ns\<rparr>"
      by (auto simp: parseText_def previousSibling_def andThen_def addNewNode_def returnNode_def)
    with inv show ?thesis
      by (simp add: parserInv_def openNode_def)
  next
    case False
    obtain lt lv lcs where l: "last cs = Node lt lv lcs" by (cases "last cs")
    have lm: "textMerged (last cs)"
      using inv(3) False by (rule list_all_last)
    show ?thesis
    proof (cases "lt = nodeText")
      case True
      with False Cons c l assms(1) have
        "p' = p\<lparr>currentNode :=
           Node t v (butlast cs @ [Node lt (lv @ '' '' @ Val (token (lexer p))) lcs]) # ns\<rparr>"
        by (auto simp: parseText_def previousSibling_def andThen_def)
      moreover have "\<not> adjacentText (butlast cs @ [Node lt (lv @ '' '' @ Val (token (lexer p))) lcs])"
        using inv(2) False l by (simp add: adjacentText_replace_last)
      moreover have "list_all textMerged (butlast cs @ [Node lt (lv @ '' '' @ Val (token (lexer p))) lcs])"
        using inv(3) lm l by (simp add: list_all_butlast)
      ultimately show ?thesis
        using inv by (simp add: parserInv_def openNode_def)
    next
      case nt: False
      with False Cons c l assms(1) have
        "p' = p\<lparr>currentNode := Node t v (cs @ [Node nodeText (Val (token (lexer p))) []]) # ns\<rparr>"
        by (auto simp: parseText_def previousSibling_def andThen_def addNewNode_def returnNode_def)
      moreover have "\<not> adjacentText (cs @ [Node nodeText (Val (token (lexer p))) []])"
        using inv(2) nt l by (simp add: adjacentText_snoc)
      ultimately show ?thesis
        using inv by (simp add: parserInv_def openNode_def)
    qed
  qed
qed

lemma node_kinds_not_text:
  "nodeBoldTag \<noteq> nodeText" "nodeItalicTag \<noteq> nodeText" "nodeError \<noteq> nodeText"
  "nodeParagraph \<noteq> nodeText" "nodeList \<noteq> nodeText" "nodeListItem \<noteq> nodeText"
  "nodeHeadingOne \<noteq> nodeText" "nodeHeadingTwo \<noteq> nodeText" "nodeHeadingThree \<noteq> nodeText"
  "nodeHeadingFour \<noteq> nodeText" "nodeHeadingFive \<noteq> nodeText" "nodeHeadingSix \<noteq> nodeText"
  "nodeRoot \<noteq> nodeText"
  by (simp_all add: nodeBoldTag_def nodeItalicTag_def nodeError_def nodeParagraph_def nodeList_def
      nodeListItem_def nodeHeadingOne_def nodeHeadingTwo_def nodeHeadingThree_def
      nodeHeadingFour_def nodeHeadingFive_def nodeHeadingSix_def nodeRoot_def nodeText_def)

lemma parseRichText_parseTag_inv:
  "(parseRichText n p = Some (Inr p') \<longrightarrow> parserInv p \<longrightarrow> parserInv p')
   \<and> (parseTag n p = Some (Inr p') \<longrightarrow> parserInv p \<longrightarrow> parserInv p')"
proof (induction n arbitrary: p p')
  case 0
  show ?case by simp
next
  case (Suc n)
  have richIH: "parserInv q'" if "parseRichText n q = Some (Inr q')" "parserInv q" for q q'
    using Suc that by blast
  have tagIH: "parserInv q'" if "parseTag n q = Some (Inr q')" "parserInv q" for q q'
    using Suc that by blast
  have 1: "parserInv p'" if r: "parseRichText (Suc n) p = Some (Inr p')" and i: "parserInv p"
  proof -
    consider (stop) "isOneOf p [typeBulletpoint, typeTerminator, typeEOF]"
      | (tok_text) "\<not> isOneOf p [typeBulletpoint, typeTerminator, typeEOF]"
          "Typ (token (lexer p)) = typeText"
      | (tag) "\<not> isOneOf p [typeBulletpoint, typeTerminator, typeEOF]"
          "Typ (token (lexer p)) = typeTag"
      | (close) "\<not> isOneOf p [typeBulletpoint, typeTerminator, typeEOF]"
          "Typ (token (lexer p)) = typeClosingSquare \<and> 0 < tagDepth p"
      | (other) "\<not> isOneOf p [typeBulletpoint, typeTerminator, typeEOF]"
          "Typ (token (lexer p)) \<noteq> typeText" "Typ (token (lexer p)) \<noteq> typeTag"
          "\<not> (Typ (token (lexer p)) = typeClosingSquare \<and> 0 < tagDepth p)"
      by blast
    then show ?thesis
    proof cases
      case stop
      with r i show ?thesis by simp
    next
      case tok_text
      with r obtain p1 p2 where "parseText p = Inr p1" "parser_nextToken p1 = Inr p2"
        "parseRichText n p2 = Some (Inr p')"
        by (auto simp: andThenF_Some andThen_Inr)
      with i show ?thesis
        by (blast intro: richIH parseText_inv parser_nextToken_inv)
    next
      case tag
      with r obtain p1 where p1: "parseTag n p = Some (Inr p1)"
        and rest: "(if 0 < tagDepth p1 \<and> isOneOf p1 [typeBulletpoint, typeTerminator]
            then Some (Inr p1)
            else andThenF (Some (parser_nextToken p1)) (parseRichText n)) = Some (Inr p')"
        by (auto simp: andThenF_Some)
      have i1: "parserInv p1" using p1 i by (rule tagIH)
      show ?thesis
      proof (cases "0 < tagDepth p1 \<and> isOneOf p1 [typeBulletpoint, typeTerminator]")
        case True
        with rest i1 show ?thesis by simp
      next
        case False
        with rest obtain p2 where "parser_nextToken p1 = Inr p2" "parseRichText n p2 = Some (Inr p')"
          by (auto simp: andThenF_Some)
        with i1 show ?thesis
          by (blast intro: richIH parser_nextToken_inv)
      qed
    next
      case close
      with r i show ?thesis by auto
    next
      case other
      with r obtain p2 where "parser_nextToken p = Inr p2" "parseRichText n p2 = Some (Inr p')"
        by (auto simp: andThenF_Some)
      with i show ?thesis
        by (blast intro: richIH parser_nextToken_inv)
    qed
  qed
  have 2: "parserInv p'" if r: "parseTag (Suc n) p = Some (Inr p')" and i: "parserInv p"
  proof -
    from r obtain p1 p2 p4 ty vl where
      a: "addNewNode p ty vl = Inr p1" "ty \<noteq> nodeText"
      and b: "parser_nextToken p1 = Inr p2"
      and c: "parseRichText n (p2\<lparr>tagDepth := tagDepth p2 + 1\<rparr>) = Some (Inr p4)"
      and d: "returnNode p4 = Inr p'"
      by (auto simp: andThenF_Some andThen_Inr node_kinds_not_text split: if_splits)
    have "parserInv p2"
      using a b i by (blast intro: addNewNode_inv parser_nextToken_inv)
    then have "parserInv p4"
      using c richIH by simp
    with d show ?thesis by (rule returnNode_inv)
  qed
  from 1 2 show ?case by blast
qed


lemmas parseRichText_inv = parseRichText_parseTag_inv [THEN conjunct1, rule_format]

lemma parseParagraph_inv:
  assumes "parseParagraph n p = Some (Inr p')" "parserInv p"
  shows "parserInv p'"
proof -
  from assms(1) obtain p1 p2 where a: "addNewNode p nodeParagraph [] = Inr p1"
    and b: "parseRichText n p1 = Some (Inr p2)" and c: "returnNode p2 = Inr p'"
    by (auto simp: parseParagraph_def andThenF_Some)
  have "parserInv p1"
    using a node_kinds_not_text(4) assms(2) by (rule addNewNode_inv)
  then have "parserInv p2"
    using b parseRichText_inv by blast
  with c show ?thesis by (rule returnNode_inv)
qed

lemma parseListItem_inv:
  assumes "parseListItem n p = Some (Inr p')" "parserInv p"
  shows "parserInv p'"
proof -
  from assms(1) obtain p1 p2 where a: "addNewNode p nodeListItem [] = Inr p1"
    and b: "parseRichText n p1 = Some (Inr p2)" and c: "returnNode p2 = Inr p'"
    by (auto simp: parseListItem_def andThenF_Some)
  have "parserInv p1"
    using a node_kinds_not_text(6) assms(2) by (rule addNewNode_inv)
  then have "parserInv p2"
    using b parseRichText_inv by blast
  with c show ?thesis by (rule returnNode_inv)
qed

lemma parseHeading_inv:
  assumes "parseHeading n p = Some (Inr p')" "parserInv p"
  shows "parserInv p'"
proof -
  from assms(1) obtain p0 p1 p2 ty vl where a: "addNewNode p ty vl = Inr p0" "ty \<noteq> nodeText"
    and a': "parser_nextToken p0 = Inr p1" and b: "parseRichText n p1 = Some (Inr p2)"
    and c: "returnNode p2 = Inr p'"
    by (auto simp: parseHeading_def andThenF_Some andThen_Inr Let_def node_kinds_not_text
        split: if_splits)
  have "parserInv p0"
    using a assms(2) by (rule addNewNode_inv)
  with a' have "parserInv p1" by (rule parser_nextToken_inv)
  then have "parserInv p2"
    using b parseRichText_inv by blast
  with c show ?thesis by (rule returnNode_inv)
qed

lemma parseList_parseListLoop_inv:
  "(parseList n p d = Some (Inr p') \<longrightarrow> parserInv p \<longrightarrow> parserInv p')
   \<and> (parseListLoop n p = Some (Inr p') \<longrightarrow> parserInv p \<longrightarrow> parserInv p')"
proof (induction n arbitrary: p p' d)
  case 0
  show ?case by simp
next
  case (Suc n)
  have listIH: "parserInv q'" if "parseList n q e = Some (Inr q')" "parserInv q" for q q' e
    using Suc that by blast
  have loopIH: "parserInv q'" if "parseListLoop n q = Some (Inr q')" "parserInv q" for q q'
    using Suc that by blast
  have 1: "parserInv p'" if r: "parseList (Suc n) p d = Some (Inr p')" and i: "parserInv p"
  proof (cases "isOneOf p [typeBulletpoint] \<and> getListItemDepth (token (lexer p)) < d")
    case True
    with r i show ?thesis by (auto intro: returnNode_inv)
  next
    case False
    with r obtain p1 where a: "addNewNode p nodeList [] = Inr p1"
      and b: "parseListLoop n p1 = Some (Inr p')"
      by (auto simp: andThenF_Some)
    have "parserInv p1"
      using a node_kinds_not_text(5) i by (rule addNewNode_inv)
    with b show ?thesis by (rule loopIH)
  qed
  have 2: "parserInv p'" if r: "parseListLoop (Suc n) p = Some (Inr p')" and i: "parserInv p"
  proof (cases "isOneOf p [typeBulletpoint]")
    case False
    with r i show ?thesis by (auto intro: returnNode_inv)
  next
    case True
    define d0 where "d0 = getListItemDepth (token (lexer p))"
    from True r obtain p1 p2 p4 where
      a: "parser_nextToken p = Inr p1" and b: "parseListItem n p1 = Some (Inr p2)"
      and c: "(if isOneOf (p2\<lparr>tagDepth := 0\<rparr>) [typeBulletpoint]
                  \<and> d0 < getListItemDepth (token (lexer (p2\<lparr>tagDepth := 0\<rparr>)))
               then parseList n (p2\<lparr>tagDepth := 0\<rparr>)
                      (getListItemDepth (token (lexer (p2\<lparr>tagDepth := 0\<rparr>))))
               else Some (Inr (p2\<lparr>tagDepth := 0\<rparr>))) = Some (Inr p4)"
      and e: "(if isOneOf p4 [typeBulletpoint] \<and> getListItemDepth (token (lexer p4)) < d0
               then Some (returnNode p4) else parseListLoop n p4) = Some (Inr p')"
      by (auto simp: andThenF_Some Let_def d0_def)
    have "parserInv p1"
      using a i by (rule parser_nextToken_inv)
    with b have i2: "parserInv p2"
      by (rule parseListItem_inv)
    have i4: "parserInv p4"
      using c i2 listIH [of "p2\<lparr>tagDepth := 0\<rparr>" _ p4] by (auto split: if_splits)
    show ?thesis
      using e i4 by (auto split: if_splits intro: returnNode_inv loopIH)
  qed
  from 1 2 show ?case by blast
qed

lemma parseGlobalLoop_inv:
  "parseGlobalLoop n p = Some (Inr p') \<Longrightarrow> parserInv p \<Longrightarrow> parserInv p'"
proof (induction n arbitrary: p)
  case 0
  then show ?case by simp
next
  case (Suc n)
  show ?case
  proof (cases "isOneOf p [typeEOF]")
    case True
    with Suc.prems show ?thesis by simp
  next
    case False
    with Suc.prems(1) obtain p1 p2 where
      a: "(if Typ (token (lexer p)) = typeHeading then parseHeading n p
           else if Typ (token (lexer p)) = typeBulletpoint then parseList n p 0
           else parseParagraph n p) = Some (Inr p1)"
      and b: "parser_nextToken p1 = Inr p2" and c: "parseGlobalLoop n p2 = Some (Inr p')"
      by (auto simp: andThenF_Some)
    have "parserInv p1"
      using a Suc.prems(2) parseList_parseListLoop_inv [of n p 0 p1]
      by (auto split: if_splits intro: parseHeading_inv parseParagraph_inv)
    then have "parserInv p2"
      using b by (blast intro: parser_nextToken_inv)
    with c show ?thesis by (rule Suc.IH)
  qed
qed

lemma Parse_textMerged:
  assumes "Parse tbl n inp = Some (Inr t)"
  shows "textMerged t"
proof -
  define p0 where "p0 = \<lparr>tree = Node nodeRoot [] [], lexer = lex tbl inp,
    currentNode = [Node nodeRoot [] []], tagDepth = 0, collectedTokens = []\<rparr>"
  have i0: "parserInv (p0\<lparr>tagDepth := 0\<rparr>)"
    by (simp add: p0_def parserInv_def openNode_def node_kinds_not_text)
  from assms obtain p1 p where "parser_nextToken (p0\<lparr>tagDepth := 0\<rparr>) = Inr p1"
    "parseGlobalLoop n p1 = Some (Inr p)" and t: "t = treeOf p"
    by (auto simp: Parse_def parseGlobal_def andThenF_Some p0_def)
  with i0 have "parserInv p"
    by (blast intro: parser_nextToken_inv parseGlobalLoop_inv)
  then show ?thesis
    unfolding t treeOf_def parserInv_def
    by (auto split: list.splits intro: textMerged_plug)
qed


lemma overwrite_byte:
  "0 < i \<Longrightarrow> i \<le> length xs \<Longrightarrow> take (i - 1) xs @ [x] @ drop i xs = xs[i - 1 := x]"
  by (cases i) (simp_all add: upd_conv_take_nth_drop)

lemma drop_overwrite:
  "0 < i \<Longrightarrow> i \<le> length xs \<Longrightarrow> drop i (take (i - 1) xs @ [x] @ drop i xs) = drop i xs"
  by (cases i) (simp_all add: min_def)

lemma next_skipSpace_canon:
  "pos l < length (input l) \<longrightarrow>
     \<not> (IsSpace (char (lexer_next l)) \<and> IsSpace (peek (lexer_next l)))
     \<and> (0 < skippedNewlines (lexer_next l) \<longrightarrow> char (lexer_next l) = charNewline)
     \<and> input (lexer_next l) =
         (if 0 < skippedNewlines (lexer_next l)
          then (input l)[pos (lexer_next l) - 1 := CHR 0x0A] else input l)"
  "0 < pos k \<and> pos k \<le> length (input k) \<longrightarrow>
     \<not> (IsSpace (char (skipSpace k)) \<and> IsSpace (peek (skipSpace k)))
     \<and> (0 < skippedNewlines (skipSpace k) \<longrightarrow> char (skipSpace k) = charNewline)
     \<and> input (skipSpace k) =
         (if 0 < skippedNewlines (skipSpace k)
          then (input k)[pos (skipSpace k) - 1 := CHR 0x0A] else input k)"
proof (induction l and k rule: lexer_next_skipSpace.induct)
  case (1 l)
  show ?case
  proof
    assume lt: "pos l < length (input l)"
    obtain c w where d: "DecodeRuneInString (drop (pos l) (input l)) = (c, w)"
      by (cases "DecodeRuneInString (drop (pos l) (input l))")
    have w: "0 < w" "w \<le> length (input l) - pos l"
      using DecodeRuneInString_pos [of "drop (pos l) (input l)"]
        DecodeRuneInString_le [of "drop (pos l) (input l)"] lt d by auto
    define l1 where "l1 = l\<lparr>pos := pos l + w\<rparr>"
    define l2 where "l2 = (if c = charNewline then l1\<lparr>line := line l1 + 1, skippedSpace := 0\<rparr> else l1)"
    define l3 where "l3 = l2\<lparr>char := c\<rparr>"
    have ne: "\<not> (length (input l) \<le> pos l \<or> length (input l) = 0)"
      using lt by auto
    have n: "lexer_next l = skipSpace (addToTag l3)"
      using ne d by (simp add: lexer_next.simps [of l] l3_def l2_def l1_def Let_def)
    have f: "pos (addToTag l3) = pos l + w" "input (addToTag l3) = input l"
      by (simp_all add: l3_def l2_def l1_def)
    note IH = "1.IH" [OF ne d [symmetric] refl l1_def l2_def l3_def]
    have "0 < pos (addToTag l3) \<and> pos (addToTag l3) \<le> length (input (addToTag l3))"
      using w lt f by simp
    with IH show "\<not> (IsSpace (char (lexer_next l)) \<and> IsSpace (peek (lexer_next l)))
     \<and> (0 < skippedNewlines (lexer_next l) \<longrightarrow> char (lexer_next l) = charNewline)
     \<and> input (lexer_next l) =
         (if 0 < skippedNewlines (lexer_next l)
          then (input l)[pos (lexer_next l) - 1 := CHR 0x0A] else input l)"
      unfolding n f by blast
  qed
next
  case (2 l)
  show ?case
  proof
    assume b: "0 < pos l \<and> pos l \<le> length (input l)"
    show "\<not> (IsSpace (char (skipSpace l)) \<and> IsSpace (peek (skipSpace l)))
     \<and> (0 < skippedNewlines (skipSpace l) \<longrightarrow> char (skipSpace l) = charNewline)
     \<and> input (skipSpace l) =
         (if 0 < skippedNewlines (skipSpace l)
          then (input l)[pos (skipSpace l) - 1 := CHR 0x0A] else input l)"
    proof (cases "IsSpace (char l) \<and> IsSpace (peek l)")
      case True
      define l1 where "l1 = l\<lparr>skippedSpace := skippedSpace l + 1\<rparr>"
      define l2 where "l2 = (if char l1 = charNewline then l1\<lparr>skippedNewlines := skippedNewlines l1 + 1\<rparr> else l1)"
      have s: "skipSpace l = lexer_next l2"
        using True by (simp add: skipSpace.simps [of l] l2_def l1_def Let_def)
      have f: "pos l2 = pos l" "input l2 = input l"
        by (simp_all add: l2_def l1_def)
      have "pos l \<noteq> length (input l)"
        using True by (auto simp: peek_def eof_def IsSpace_def)
      then have "pos l2 < length (input l2)"
        using b f by simp
      with "2.IH" [OF True l1_def l2_def] show ?thesis
        unfolding s f by blast
    next
      case False
      show ?thesis
      proof (cases "0 < skippedNewlines l \<and> IsSpace (char l)")
        case t: True
        define l1 where "l1 = (if char l = charNewline then l\<lparr>skippedNewlines := skippedNewlines l + 1\<rparr> else l)"
        have s: "skipSpace l = l1\<lparr>input := take (pos l1 - 1) (input l1) @ [CHR 0x0A] @ drop (pos l1) (input l1),
                char := charNewline\<rparr>"
          using False t by (simp add: skipSpace.simps [of l] l1_def Let_def)
        have f: "pos l1 = pos l" "input l1 = input l" "0 < skippedNewlines l1"
          using t by (simp_all add: l1_def)
        have np: "\<not> IsSpace (peek l)"
          using False t by simp
        have inp: "input (skipSpace l) = (input l)[pos l - 1 := CHR 0x0A]"
          using b overwrite_byte [of "pos l" "input l" "CHR 0x0A"] by (simp add: s f)
        have ps: "pos (skipSpace l) = pos l" "char (skipSpace l) = charNewline"
          "0 < skippedNewlines (skipSpace l)"
          using f by (simp_all add: s)
        have pk: "peek (skipSpace l) = peek l"
          using b by (simp add: peek_def inp ps drop_update_cancel)
        show ?thesis
          using np inp ps pk by simp
      next
        case f2: False
        have s: "skipSpace l = l\<lparr>skippedNewlines := 0\<rparr>"
          using False f2 by (subst skipSpace.simps) (simp only: if_False)
        have "peek (l\<lparr>skippedNewlines := 0\<rparr>) = peek l"
          by (simp add: peek_def)
        with False show ?thesis
          by (simp add: s)
      qed
    qed
  qed
qed

lemma next_length [simp]: "length (input (lexer_next l)) = length (input l)"
  using next_skipSpace_progress(1) [of l] next_at_end [of l]
  by (cases "pos l < length (input l)") simp_all

lemma nextN_length [simp]: "length (input (nextN n l)) = length (input l)"
  by (induction n arbitrary: l) simp_all

lemma lexTextStep_length_Continue:
  assumes "lexTextStep l = Continue k"
  shows "length (input k) = length (input l)"
  using lexTextStep_Continue [OF assms] by simp

lemma lexTextStep_length_Done:
  assumes "lexTextStep l = Done (Inr k)"
  shows "length (input k) = length (input l)"
  using assms
  by (simp add: lexTextStep_def Let_def split: if_splits sum.splits)
    (auto dest: truncateToken_frame)

lemma lexTextLoop_length:
  "lexTextLoop l0 = Inr l' \<Longrightarrow> length (input l') = length (input l0)"
  by (rule lexTextLoop_rule [where I = "\<lambda>l. length (input l) = length (input l0)"])
    (simp_all add: lexTextStep_length_Continue lexTextStep_length_Done)

lemma lexHeadingLoop_length: "length (input (lexHeadingLoop l)) = length (input l)"
proof (induction l rule: lexHeadingLoop.induct)
  case (1 l0)
  show ?case
    using "1.IH" by (subst lexHeadingLoop.simps) (auto simp: Let_def)
qed

lemma callLexFn_length:
  "callLexFn f l = Inr l' \<Longrightarrow> length (input l') = length (input l)"
  by (cases f)
    (auto simp: lexGlobal_def lexText_def lexHeading_def lexTerminator_def lexTag_def
      lexOpeningSquare_def lexClosingSquare_def lexHypen_def resetToken_def Let_def
      lexHeadingLoop_length
      split: sum.splits if_splits dest: lexTextLoop_length)

lemma nextToken_length:
  "nextToken l = Inr (running, l') \<Longrightarrow> length (input l') = length (input l)"
proof (induction l rule: nextToken.induct)
  case (1 l)
  show ?case
  proof (cases "lexNext l")
    case None
    with "1.prems" show ?thesis by (simp add: nextToken.simps [of l])
  next
    case (Some f)
    show ?thesis
    proof (cases "callLexFn f l")
      case (Inl e)
      with Some "1.prems" show ?thesis by (simp add: nextToken.simps [of l])
    next
      case (Inr l1)
      have len: "length (input l1) = length (input l)"
        using Inr by (rule callLexFn_length)
      show ?thesis
      proof (cases "Typ (token l1) = typeNone")
        case True
        with Some Inr "1.prems" have "nextToken l1 = Inr (running, l')"
          by (simp add: nextToken.simps [of l])
        with "1.IH" [OF Some Inr True] len show ?thesis by simp
      next
        case False
        with Some Inr "1.prems" have "l' = l1"
          by (simp add: nextToken.simps [of l])
        with len show ?thesis by simp
      qed
    qed
  qed
qed

lemma advance_length: "advance n l = Inr l' \<Longrightarrow> length (input l') = length (input l)"
proof (induction n arbitrary: l)
  case 0
  then show ?case by simp
next
  case (Suc n)
  then show ?case
    by (auto split: sum.splits prod.splits dest!: nextToken_length)
qed

lemma lexGlobal_ordinary:
  assumes "char (lexer_next (resetToken l)) \<noteq> eof" "\<not> IsSpace (char (lexer_next (resetToken l)))"
    "char (lexer_next (resetToken l)) \<noteq> charBackslash"
    "\<not> isHeadingChar (lexer_next (resetToken l))" "char (lexer_next (resetToken l)) \<noteq> charHyphen"
  shows "lexNext (lexGlobal l) = Some LexText \<and> continuousNewline (lexGlobal l)"
  using assms by (simp add: lexGlobal_def Let_def)

lemma lexGlobal_heading:
  assumes "isHeadingChar (lexer_next (resetToken l))"
  shows "lexNext (lexGlobal l) = Some LexHeading \<and> \<not> continuousNewline (lexGlobal l)"
proof -
  have "char (lexer_next (resetToken l)) \<noteq> eof" "\<not> IsSpace (char (lexer_next (resetToken l)))"
    "char (lexer_next (resetToken l)) \<noteq> charBackslash"
    using assms
    by (auto simp: isHeadingChar_def charDot_def charColon_def eof_def IsSpace_def
        charBackslash_def split: if_splits)
  moreover have "\<not> continuousNewline (resetToken l)"
    by (simp add: resetToken_def)
  ultimately show ?thesis
    using assms by (simp add: lexGlobal_def Let_def)
qed

lemma lexTextStep_newline:
  assumes "char (lexer_next l0) = charNewline" "ctx (lexer_next l0) \<noteq> ctxList"
    "peekBehind (lexer_next l0) \<noteq> charBackslash"
  shows "(continuousNewline (lexer_next l0) \<and> skippedNewlines (lexer_next l0) < 2 \<longrightarrow>
            lexTextStep l0 = Continue (addToToken (lexer_next l0) 32))
       \<and> (\<not> continuousNewline (lexer_next l0) \<or> 2 \<le> skippedNewlines (lexer_next l0) \<longrightarrow>
            lexTextStep l0 = Done (Inr ((lexer_next l0)\<lparr>lexNext := Some LexTerminator\<rparr>)))"
proof -
  have "charNewline \<noteq> eof" "charNewline \<noteq> charBackslash"
    by (simp_all add: charNewline_def eof_def charBackslash_def)
  with assms show ?thesis
    by (auto simp: lexTextStep_def Let_def)
qed

section \<open>Facts about the parser's productions\<close>

lemma parseListLoop_step:
  assumes "isOneOf p [typeBulletpoint]" "parser_nextToken p = Inr p1"
    "parseListItem n p1 = Some (Inr p2)"
  shows "parseListLoop (Suc n) p =
     (if isOneOf (p2\<lparr>tagDepth := 0\<rparr>) [typeBulletpoint]
         \<and> getListItemDepth (token (lexer p)) < getListItemDepth (token (lexer p2))
      then andThenF (parseList n (p2\<lparr>tagDepth := 0\<rparr>) (getListItemDepth (token (lexer p2))))
             (\<lambda>p4. if isOneOf p4 [typeBulletpoint]
                        \<and> getListItemDepth (token (lexer p4)) < getListItemDepth (token (lexer p))
                    then Some (returnNode p4) else parseListLoop n p4)
      else if isOneOf (p2\<lparr>tagDepth := 0\<rparr>) [typeBulletpoint]
         \<and> getListItemDepth (token (lexer p2)) < getListItemDepth (token (lexer p))
      then Some (returnNode (p2\<lparr>tagDepth := 0\<rparr>))
      else parseListLoop n (p2\<lparr>tagDepth := 0\<rparr>))"
  using assms by (simp add: andThenF_def Let_def)

lemma isl_projr: "\<not> isl x \<Longrightarrow> x = Inr (projr x)"
  by simp

lemma some_inr_collapse:
  "(case x of Some (Inr y) \<Rightarrow> True | _ \<Rightarrow> False) \<Longrightarrow> x = Some (Inr (projr (the x)))"
  by (auto split: option.splits sum.splits)

lemma isOneOf_tagDepth [simp]: "isOneOf (p\<lparr>tagDepth := d\<rparr>) ts = isOneOf p ts"
  by (simp add: isOneOf_def)

lemma parseList_opens:
  "\<not> getListItemDepth (token (lexer q)) < d \<Longrightarrow>
     parseList (Suc m) q d = andThenF (Some (addNewNode q nodeList [])) (parseListLoop m)"
  by simp

lemma parseHeading_invalid:
  assumes "Val (token (lexer p)) = v"
    "v \<notin> set [nodeHeadingOneValue, nodeHeadingTwoValue, nodeHeadingThreeValue,
       nodeHeadingFourValue, nodeHeadingFiveValue, nodeHeadingSixValue]"
  shows "parseHeading n p =
     andThenF (Some (andThen (addNewNode p nodeError (''Invalid heading value: '' @ v))
                       parser_nextToken))
       (\<lambda>p1. andThenF (parseRichText n p1) (\<lambda>p2. Some (returnNode p2)))"
  using assms by (simp add: parseHeading_def Let_def errInvalidHeading_def)

lemma parseRichText_stop:
  "isOneOf p [typeBulletpoint, typeTerminator] \<Longrightarrow> parseRichText (Suc n) p = Some (Inr p)"
  by (auto simp: isOneOf_def)

lemma parseRichText_after_tag:
  assumes "\<not> isOneOf p [typeBulletpoint, typeTerminator, typeEOF]"
    "Typ (token (lexer p)) = typeTag" "parseTag n p = Some (Inr p1)"
    "0 < tagDepth p1" "isOneOf p1 [typeBulletpoint, typeTerminator]"
  shows "parseRichText (Suc n) p = Some (Inr p1)"
  using assms by (simp add: andThenF_def)

lemma parseListLoop_resets:
  assumes "isOneOf p [typeBulletpoint]" "parser_nextToken p = Inr p1"
    "parseListItem n p1 = Some (Inr p2)" "isOneOf p2 [typeBulletpoint]"
    "getListItemDepth (token (lexer p2)) = getListItemDepth (token (lexer p))"
  shows "parseListLoop (Suc n) p = parseListLoop n (p2\<lparr>tagDepth := 0\<rparr>)"
  using parseListLoop_step [OF assms(1-3)] assms(4,5) by simp

text \<open>
  The bytes of a sequence of runes, each encoded as \<open>string(r)\<close> encodes it.
\<close>

definition runBytes :: "rune list \<Rightarrow> string" where
  "runBytes rs = concat (map runeString rs)"

lemma Decode_runeString_ascii:
  "0 \<le> r \<Longrightarrow> r < 128 \<Longrightarrow> DecodeRuneInString (runeString r @ xs) = (r, length (runeString r))"
  by (simp add: runeString_def DecodeRuneInString_def Let_def byte_def RuneError_def)

lemma Decode_runeString_consts:
  "DecodeRuneInString (runeString 133 @ xs) = (133, length (runeString 133))"
  "DecodeRuneInString (runeString 160 @ xs) = (160, length (runeString 160))"
  "DecodeRuneInString (runeString 5760 @ xs) = (5760, length (runeString 5760))"
  "DecodeRuneInString (runeString 8192 @ xs) = (8192, length (runeString 8192))"
  "DecodeRuneInString (runeString 8193 @ xs) = (8193, length (runeString 8193))"
  "DecodeRuneInString (runeString 8194 @ xs) = (8194, length (runeString 8194))"
  "DecodeRuneInString (runeString 8195 @ xs) = (8195, length (runeString 8195))"
  "DecodeRuneInString (runeString 8196 @ xs) = (8196, length (runeString 8196))"
  "DecodeRuneInString (runeString 8197 @ xs) = (8197, length (runeString 8197))"
  "DecodeRuneInString (runeString 8198 @ xs) = (8198, length (runeString 8198))"
  "DecodeRuneInString (runeString 8199 @ xs) = (8199, length (runeString 8199))"
  "DecodeRuneInString (runeString 8200 @ xs) = (8200, length (runeString 8200))"
  "DecodeRuneInString (runeString 8201 @ xs) = (8201, length (runeString 8201))"
  "DecodeRuneInString (runeString 8202 @ xs) = (8202, length (runeString 8202))"
  "DecodeRuneInString (runeString 8232 @ xs) = (8232, length (runeString 8232))"
  "DecodeRuneInString (runeString 8233 @ xs) = (8233, length (runeString 8233))"
  "DecodeRuneInString (runeString 8239 @ xs) = (8239, length (runeString 8239))"
  "DecodeRuneInString (runeString 8287 @ xs) = (8287, length (runeString 8287))"
  "DecodeRuneInString (runeString 12288 @ xs) = (12288, length (runeString 12288))"
  by (simp_all add: runeString_def DecodeRuneInString_def Let_def byte_def RuneError_def
      contByte_def)

lemma IsSpace_cases:
  "IsSpace r \<Longrightarrow>
     (0 \<le> r \<and> r < 128) \<or> r \<in> set [133, 160, 5760, 8192, 8193, 8194, 8195, 8196, 8197, 8198,
              8199, 8200, 8201, 8202, 8232, 8233, 8239, 8287, 12288]"
  unfolding IsSpace_def by simp arith

lemma Decode_runeString_space:
  assumes "IsSpace r"
  shows "DecodeRuneInString (runeString r @ xs) = (r, length (runeString r))"
  using IsSpace_cases [OF assms] Decode_runeString_ascii [of r xs] Decode_runeString_consts [of xs]
  by (elim disjE) auto

lemma runeString_nonempty [simp]: "runeString r \<noteq> []"
  by (simp add: runeString_def Let_def)

lemma next_read:
  assumes "pos l < length (input l)" "DecodeRuneInString (drop (pos l) (input l)) = (c, w)"
  shows "lexer_next l =
     skipSpace (addToTag ((if c = charNewline
        then l\<lparr>pos := pos l + w, line := line l + 1, skippedSpace := 0\<rparr>
        else l\<lparr>pos := pos l + w\<rparr>)\<lparr>char := c\<rparr>))"
proof -
  have "\<not> (length (input l) \<le> pos l \<or> length (input l) = 0)"
    using assms(1) by auto
  then show ?thesis
    using assms(2) by (simp add: lexer_next.simps [of l] Let_def)
qed

text \<open>
  What one call of \<open>next\<close> does at a whitespace run. The buffer is \<open>pre\<close>, the run
  \<open>rs\<close> and \<open>rest\<close>, which is empty or starts with a character that is no whitespace;
  \<open>pos\<close> is at the start of the run. The call consumes the whole run. \<open>skipSpace\<close>
  counts the newlines among the characters it skips, which are all but the last one.
\<close>

lemma next_run:
  assumes "input l = pre @ runBytes rs @ rest" "pos l = length pre" "rs \<noteq> []"
    "\<forall>r\<in>set rs. IsSpace r" "\<not> IsSpace (fst (DecodeRuneInString rest))"
  shows "pos (lexer_next l) = length pre + length (runBytes rs)
     \<and> input (lexer_next l) =
         (if 0 < skippedNewlines l + count_list (butlast rs) charNewline
          then (input l)[length pre + length (runBytes rs) - 1 := CHR 0x0A] else input l)
     \<and> char (lexer_next l) =
         (if 0 < skippedNewlines l + count_list (butlast rs) charNewline
          then charNewline else last rs)
     \<and> skippedNewlines (lexer_next l) =
         (if 0 < skippedNewlines l + count_list (butlast rs) charNewline
          then skippedNewlines l + count_list rs charNewline else 0)"
  using assms
proof (induction rs arbitrary: l pre)
  case Nil
  then show ?case by simp
next
  case (Cons r rs')
  have sp: "IsSpace r"
    using Cons.prems(4) by simp
  define w where "w = length (runeString r)"
  have w: "0 < w"
    by (simp add: w_def)
  have inp: "drop (pos l) (input l) = runeString r @ (runBytes rs' @ rest)"
    using Cons.prems(1,2) by (simp add: runBytes_def)
  have d: "DecodeRuneInString (drop (pos l) (input l)) = (r, w)"
    using Decode_runeString_space [OF sp] inp w_def by simp
  have len: "length (input l) = length pre + w + length (runBytes rs') + length rest"
    using Cons.prems(1) by (simp add: runBytes_def w_def)
  have lt: "pos l < length (input l)"
    using len w Cons.prems(2) by simp
  define k where "k = addToTag ((if r = charNewline
        then l\<lparr>pos := pos l + w, line := line l + 1, skippedSpace := 0\<rparr>
        else l\<lparr>pos := pos l + w\<rparr>)\<lparr>char := r\<rparr>)"
  have n: "lexer_next l = skipSpace k"
    using next_read [OF lt d] by (simp add: k_def)
  have kf: "input k = input l" "pos k = length pre + w" "char k = r"
    "skippedNewlines k = skippedNewlines l"
    using Cons.prems(2) by (simp_all add: k_def)
  have dk: "drop (pos k) (input k) = runBytes rs' @ rest"
    using Cons.prems(1) kf by (simp add: runBytes_def w_def)
  show ?case
  proof (cases rs')
    case Nil
    have "\<not> IsSpace (peek k)"
      using dk Cons.prems(5) Nil
      by (simp add: peek_def runBytes_def) (simp add: IsSpace_def eof_def)
    then have s: "skipSpace k =
        (if 0 < skippedNewlines k \<and> IsSpace (char k) then
           (if char k = charNewline then k\<lparr>skippedNewlines := skippedNewlines k + 1\<rparr> else k)
             \<lparr>input := take (pos k - 1) (input k) @ [CHR 0x0A] @ drop (pos k) (input k),
               char := charNewline\<rparr>
         else k\<lparr>skippedNewlines := 0\<rparr>)"
      by (simp add: skipSpace.simps [of k] Let_def)
    have ow: "take (pos k - 1) (input k) @ [CHR 0x0A] @ drop (pos k) (input k)
        = (input l)[length pre + w - 1 := CHR 0x0A]"
      using overwrite_byte [of "pos k" "input k" "CHR 0x0A"] kf len w by simp
    have rb: "runBytes (r # rs') = runeString r" "butlast (r # rs') = []" "last (r # rs') = r"
      "count_list (r # rs') charNewline = (if r = charNewline then 1 else 0)"
      using Nil by (simp_all add: runBytes_def)
    show ?thesis
    proof (cases "0 < skippedNewlines l")
      case True
      then have "skipSpace k =
          (if r = charNewline then k\<lparr>skippedNewlines := skippedNewlines k + 1\<rparr> else k)
             \<lparr>input := (input l)[length pre + w - 1 := CHR 0x0A], char := charNewline\<rparr>"
        using s ow kf sp by simp
      then show ?thesis
        unfolding n rb using True kf by (simp add: w_def)
    next
      case False
      then have "skipSpace k = k\<lparr>skippedNewlines := 0\<rparr>"
        using s kf by simp
      then show ?thesis
        unfolding n rb using False kf by (simp add: w_def)
    qed
  next
    case (Cons r' rs'')
    have sp': "IsSpace r'"
      using Cons.prems(4) Cons by simp
    have "peek k = r'"
      using dk Cons Decode_runeString_space [OF sp', of "runBytes rs'' @ rest"] kf len
      by (simp add: peek_def runBytes_def)
    then have pk: "IsSpace (char k) \<and> IsSpace (peek k)"
      using sp sp' kf by simp
    define k2 where "k2 = (if r = charNewline
        then k\<lparr>skippedSpace := skippedSpace k + 1, skippedNewlines := skippedNewlines k + 1\<rparr>
        else k\<lparr>skippedSpace := skippedSpace k + 1\<rparr>)"
    have s: "skipSpace k = lexer_next k2"
      using pk kf by (simp add: skipSpace.simps [of k] Let_def k2_def)
    have k2f: "input k2 = (pre @ runeString r) @ runBytes rs' @ rest"
      "pos k2 = length (pre @ runeString r)" "input k2 = input l"
      "skippedNewlines k2 = skippedNewlines l + (if r = charNewline then 1 else 0)"
      using kf Cons.prems(1) by (simp_all add: k2_def runBytes_def w_def)
    have ne: "rs' \<noteq> []"
      using Cons by simp
    have all: "\<forall>r\<in>set rs'. IsSpace r"
      using Cons.prems(4) by simp
    note IH0 = Cons.IH [OF k2f(1,2) ne all Cons.prems(5)]
    have cnt: "skippedNewlines k2 + count_list (butlast rs') charNewline
        = skippedNewlines l + count_list (butlast (r # rs')) charNewline"
      "skippedNewlines k2 + count_list rs' charNewline
        = skippedNewlines l + count_list (r # rs') charNewline"
      using k2f(4) ne by simp_all
    have lb: "length (pre @ runeString r) + length (runBytes rs')
        = length pre + length (runBytes (r # rs'))"
      by (simp add: runBytes_def)
    note IH = IH0 [unfolded cnt lb k2f(3)]
    have "last (r # rs') = last rs'"
      using ne by simp
    then show ?thesis
      unfolding n s using IH by (simp only:)
  qed
qed

lemma update_last_of_run:
  "xs \<noteq> [] \<Longrightarrow> (pre @ xs @ rest)[length pre + length xs - 1 := c] = pre @ butlast xs @ [c] @ rest"
  by (cases xs rule: rev_cases) (simp_all add: list_update_append)

lemma runBytes_nonempty: "rs \<noteq> [] \<Longrightarrow> runBytes rs \<noteq> []"
  by (cases rs) (simp_all add: runBytes_def)

lemma next_run_fresh:
  assumes "input l = pre @ runBytes rs @ rest" "pos l = length pre" "rs \<noteq> []"
    "\<forall>r\<in>set rs. IsSpace r" "\<not> IsSpace (fst (DecodeRuneInString rest))"
    "skippedNewlines l = 0"
  shows "pos (lexer_next l) = length pre + length (runBytes rs)"
    "char (lexer_next l) = (if charNewline \<in> set rs then charNewline else last rs)"
    "input (lexer_next l) =
       (if charNewline \<in> set (butlast rs) then pre @ butlast (runBytes rs) @ [CHR 0x0A] @ rest
        else input l)"
    "skippedNewlines (lexer_next l) =
       (if charNewline \<in> set (butlast rs) then count_list rs charNewline else 0)"
proof -
  note R = next_run [OF assms(1-5)]
  have c: "0 < skippedNewlines l + count_list (butlast rs) charNewline
      \<longleftrightarrow> charNewline \<in> set (butlast rs)"
    using assms(6) count_list_0_iff [of "butlast rs" charNewline] by auto
  have u: "(input l)[length pre + length (runBytes rs) - 1 := CHR 0x0A]
      = pre @ butlast (runBytes rs) @ [CHR 0x0A] @ rest"
    using update_last_of_run [OF runBytes_nonempty [OF assms(3)]] assms(1) by simp
  have m: "charNewline \<in> set rs \<longleftrightarrow> charNewline \<in> set (butlast rs) \<or> last rs = charNewline"
    using assms(3) by (cases rs rule: rev_cases) auto
  show "pos (lexer_next l) = length pre + length (runBytes rs)"
    using R by simp
  show "char (lexer_next l) = (if charNewline \<in> set rs then charNewline else last rs)"
    using R c m by auto
  show "input (lexer_next l) =
       (if charNewline \<in> set (butlast rs) then pre @ butlast (runBytes rs) @ [CHR 0x0A] @ rest
        else input l)"
    using R c u by simp
  show "skippedNewlines (lexer_next l) =
       (if charNewline \<in> set (butlast rs) then count_list rs charNewline else 0)"
    using R c assms(6) by simp
qed

text \<open>
  The flag \<open>continuousNewline\<close> and the context are written by \<open>lexGlobal\<close> (through
  \<open>resetToken\<close>) and, the context, by \<open>lexHypen\<close>; no other method of the lexer changes
  them.
\<close>

definition sameMode :: "lexer \<Rightarrow> lexer \<Rightarrow> bool" where
  "sameMode l l' = (continuousNewline l' = continuousNewline l \<and> ctx l' = ctx l)"

lemma sameMode_refl [simp]: "sameMode l l"
  by (simp add: sameMode_def)

lemma sameMode_trans: "sameMode a b \<Longrightarrow> sameMode b c \<Longrightarrow> sameMode a c"
  by (simp add: sameMode_def)

lemma nextN_mode [simp]:
  "continuousNewline (nextN n l) = continuousNewline l" "ctx (nextN n l) = ctx l"
  by (induction n arbitrary: l) simp_all

lemma backupN_mode [simp]:
  "continuousNewline (backupN n l) = continuousNewline l" "ctx (backupN n l) = ctx l"
  by (induction n arbitrary: l) simp_all

lemma sameMode_upd [simp]:
  "sameMode l (k\<lparr>token := t\<rparr>) = sameMode l k" "sameMode l (k\<lparr>lexNext := f\<rparr>) = sameMode l k"
  "sameMode l (k\<lparr>tag := g\<rparr>) = sameMode l k" "sameMode (l\<lparr>token := t\<rparr>) k = sameMode l k"
  "sameMode l (backup k) = sameMode l k" "sameMode l (trimTrailingSpace k) = sameMode l k"
  "sameMode l (addToToken k c) = sameMode l k" "sameMode l (lexer_next k) = sameMode l k"
  "sameMode l (nextN n k) = sameMode l k" "sameMode l (backupN n k) = sameMode l k"
  by (simp_all add: sameMode_def trimTrailingSpace_def addToToken_def)

lemma sameMode_truncateToken: "truncateToken l n = Inr l2 \<Longrightarrow> sameMode k l2 = sameMode k l"
  by (auto simp: truncateToken_def sameMode_def split: if_splits)

lemma lexTextStep_mode_Continue:
  assumes "lexTextStep l = Continue k"
  shows "sameMode l k"
  using assms
  by (simp add: lexTextStep_def Let_def split: if_splits sum.splits) auto

lemma lexTextStep_mode_Done:
  assumes "lexTextStep l = Done (Inr k)"
  shows "sameMode l k"
  using assms
  by (simp add: lexTextStep_def Let_def split: if_splits sum.splits)
    (auto simp: sameMode_truncateToken)

lemma lexTextLoop_mode: "lexTextLoop l0 = Inr l' \<Longrightarrow> sameMode l0 l'"
  by (rule lexTextLoop_rule [where I = "\<lambda>l. sameMode l0 l"])
    (auto intro: sameMode_trans lexTextStep_mode_Continue lexTextStep_mode_Done)

lemma lexHeadingLoop_mode: "sameMode l (lexHeadingLoop l)"
proof (induction l rule: lexHeadingLoop.induct)
  case (1 l0)
  have "sameMode l0 (lexHeadingLoop (addToToken (lexer_next l0) (char (lexer_next l0))))"
    if "char (lexer_next l0) \<noteq> eof"
      "\<not> (\<not> isHeadingChar (lexer_next l0) \<or> length (Val (token (lexer_next l0))) = 3)"
    using "1.IH" [OF refl that] by (simp add: sameMode_def)
  then show ?case
    by (subst lexHeadingLoop.simps) (simp add: Let_def)
qed

lemma callLexFn_mode:
  assumes "callLexFn f l = Inr l'" "f \<noteq> LexGlobal"
  shows "continuousNewline l' = continuousNewline l" "f \<noteq> LexHypen \<Longrightarrow> ctx l' = ctx l"
proof -
  have t: "sameMode l l'" if "f = LexText"
  proof -
    from that assms(1) obtain k where k: "lexTextLoop (l\<lparr>token := mkToken l typeText []\<rparr>) = Inr k"
      and l': "l' = (if Val (token k) = [] then k\<lparr>token := (token k)\<lparr>Typ := typeNone\<rparr>\<rparr> else k)"
      by (auto simp: lexText_def split: sum.splits)
    from lexTextLoop_mode [OF k] show ?thesis
      by (simp add: l')
  qed
  have h: "sameMode l l'" if "f = LexHeading"
    using that assms(1) lexHeadingLoop_mode [of "l\<lparr>token := mkToken l typeHeading []\<rparr>"]
    by (auto simp: lexHeading_def)
  have o: "sameMode l l'" if "f \<noteq> LexText" "f \<noteq> LexHeading" "f \<noteq> LexHypen"
    using that assms
    by (cases f)
      (auto simp: lexTerminator_def lexTag_def lexOpeningSquare_def lexClosingSquare_def Let_def)
  have y: "continuousNewline l' = continuousNewline l" if "f = LexHypen"
    using that assms(1) by (auto simp: lexHypen_def Let_def split: if_splits)
  show "continuousNewline l' = continuousNewline l"
    using t h o y by (auto simp: sameMode_def)
  show "ctx l' = ctx l" if "f \<noteq> LexHypen"
    using t h o that by (auto simp: sameMode_def)
qed

lemma lexTextStep_run:
  assumes "input l0 = pre @ runBytes rs @ rest" "pos l0 = length pre" "rs \<noteq> []"
    "\<forall>r\<in>set rs. IsSpace r" "\<not> IsSpace (fst (DecodeRuneInString rest))"
    "skippedNewlines l0 = 0" "charNewline \<in> set rs"
    "ctx l0 \<noteq> ctxList" "peekBehind (lexer_next l0) \<noteq> charBackslash"
  shows "continuousNewline l0 \<and> count_list rs charNewline < 2 \<Longrightarrow>
           lexTextStep l0 = Continue (addToToken (lexer_next l0) 32)"
    "\<not> continuousNewline l0 \<or> 2 \<le> count_list rs charNewline \<Longrightarrow>
           lexTextStep l0 = Done (Inr ((lexer_next l0)\<lparr>lexNext := Some LexTerminator\<rparr>))"
proof -
  note R = next_run_fresh [OF assms(1-6)]
  have c: "char (lexer_next l0) = charNewline"
    using R(2) assms(7) by simp
  have "charNewline \<in> set (butlast rs)" if "2 \<le> count_list rs charNewline"
  proof (rule ccontr)
    assume "charNewline \<notin> set (butlast rs)"
    then have "count_list (butlast rs) charNewline = 0"
      by (simp add: count_list_0_iff)
    moreover have "count_list rs charNewline
        = count_list (butlast rs) charNewline + (if last rs = charNewline then 1 else 0)"
      using assms(3) by (cases rs rule: rev_cases) simp_all
    ultimately show False
      using that by (simp split: if_splits)
  qed
  then have s: "2 \<le> skippedNewlines (lexer_next l0) \<longleftrightarrow> 2 \<le> count_list rs charNewline"
    using R(4) by auto
  note N = lexTextStep_newline [OF c _ assms(9)]
  have x: "ctx (lexer_next l0) \<noteq> ctxList"
    using assms(8) by simp
  show "lexTextStep l0 = Continue (addToToken (lexer_next l0) 32)"
    if "continuousNewline l0 \<and> count_list rs charNewline < 2"
    using N [OF x] that s by simp
  show "lexTextStep l0 = Done (Inr ((lexer_next l0)\<lparr>lexNext := Some LexTerminator\<rparr>))"
    if "\<not> continuousNewline l0 \<or> 2 \<le> count_list rs charNewline"
    using N [OF x] that s by auto
qed

text \<open>
  A tag that is still open at a Bulletpoint or Terminator token. \<open>parseRichText\<close>
  returns at once at such a token, whatever the tag depth: it adds no node, so no Error
  node, and leaves the token for its caller; \<open>parseTag\<close> then closes the tag node with
  the children collected so far. Back in the enclosing \<open>parseRichText\<close>, a positive tag
  depth at such a token makes it return too instead of reading on. The loop of
  \<open>parseList\<close> goes on from the state of the parsed item with the tag depth set to
  zero. So the tag opened in the first item of the list of the test suite holds \<open>quick\<close>
  only, the text of the second item is a child of that item, and its closing bracket is
  skipped at depth zero; in a paragraph a blank line closes the open tag in the same way.
\<close>

lemma unterminated_tag_closes:
  "(isOneOf p [typeBulletpoint, typeTerminator] \<longrightarrow> parseRichText (Suc n) p = Some (Inr p))
   \<and> (\<not> isOneOf p [typeBulletpoint, typeTerminator, typeEOF]
        \<and> Typ (token (lexer p)) = typeTag \<and> parseTag n p = Some (Inr p1)
        \<and> 0 < tagDepth p1 \<and> isOneOf p1 [typeBulletpoint, typeTerminator] \<longrightarrow>
          parseRichText (Suc n) p = Some (Inr p1))
   \<and> (isOneOf q [typeBulletpoint] \<and> parser_nextToken q = Inr q1
        \<and> parseListItem n q1 = Some (Inr q2) \<and> isOneOf q2 [typeBulletpoint]
        \<and> getListItemDepth (token (lexer q2)) = getListItemDepth (token (lexer q)) \<longrightarrow>
          parseListLoop (Suc n) q = parseListLoop n (q2\<lparr>tagDepth := 0\<rparr>))
   \<and> Parse tbl 30 (''- The bold[quick'' @ [CHR 0x0A] @ ''- brown fox] jumps'')
     = Some (Inr (Node ''Root'' []
         [Node ''List'' []
           [Node ''ListItem'' []
              [Node ''Text'' ''The'' [], Node ''BoldTag'' [] [Node ''Text'' ''quick'' []]],
            Node ''ListItem'' [] [Node ''Text'' ''brown fox jumps'' []]]]))
   \<and> Parse tbl 30 (''a bold[b'' @ [CHR 0x0A, CHR 0x0A] @ ''c'')
     = Some (Inr (Node ''Root'' []
         [Node ''Paragraph'' []
            [Node ''Text'' ''a'' [], Node ''BoldTag'' [] [Node ''Text'' ''b'' []]],
          Node ''Paragraph'' [] [Node ''Text'' ''c'' []]]))"
proof -
  have ex: "Parse tbl 30 (''- The bold[quick'' @ [CHR 0x0A] @ ''- brown fox] jumps'')
     = Some (Inr (Node ''Root'' []
         [Node ''List'' []
           [Node ''ListItem'' []
              [Node ''Text'' ''The'' [], Node ''BoldTag'' [] [Node ''Text'' ''quick'' []]],
            Node ''ListItem'' [] [Node ''Text'' ''brown fox jumps'' []]]]))"
    "Parse tbl 30 (''a bold[b'' @ [CHR 0x0A, CHR 0x0A] @ ''c'')
     = Some (Inr (Node ''Root'' []
         [Node ''Paragraph'' []
            [Node ''Text'' ''a'' [], Node ''BoldTag'' [] [Node ''Text'' ''b'' []]],
          Node ''Paragraph'' [] [Node ''Text'' ''c'' []]]))"
    by code_simp+
  show ?thesis
    using parseRichText_stop [of p n] parseRichText_after_tag [of p n p1]
      parseListLoop_resets [of q q1 n q2] ex
    by blast
qed

lemma parseRichText_skip:
  assumes "Typ (token (lexer p)) = typeOpeningSquare
     \<or> (Typ (token (lexer p)) = typeClosingSquare \<and> tagDepth p = 0)"
  shows "parseRichText (Suc n) p = andThenF (Some (parser_nextToken p)) (parseRichText n)"
  using assms by (auto simp: isOneOf_def)

lemma parser_nextToken_frame:
  "parser_nextToken p = Inr p' \<Longrightarrow>
     currentNode p' = currentNode p \<and> tree p' = tree p \<and> tagDepth p' = tagDepth p"
  by (auto simp: parser_nextToken_def split: sum.splits prod.splits)

section \<open>The claims\<close>

text \<open>
  C1. The claim: for every input string Parse terminates and returns a tree rooted at a
  Root node, and never throws for malformed markup. The code does throw: \<open>l.tag\<close> is not
  cleared when a text run ends at a closing bracket, so the letters in front of \<open>]\<close>
  stay in it; letters right behind the bracket are added to them, and at the next \<open>[\<close>
  \<open>truncateToken(len(l.tag))\<close> cuts more bytes than the token's value has. On \<open>a]b[\<close>
  the value is \<open>b\<close> and the tag \<open>ab\<close>: Go panics with slice bounds out of range, for
  every letter table and also on \<open>bold[a]italic[b]\<close>.
\<close>

theorem C1_Parse_panics:
  "Parse tbl 10 ''a]b['' = Some (Inl SliceBoundsOutOfRange)
   \<and> Parse tbl 10 ''bold[a]italic[b]'' = Some (Inl SliceBoundsOutOfRange)
   \<and> collectTokens tbl 10 ''a]b['' = Some (Inl SliceBoundsOutOfRange)"
  by code_simp

text \<open>
  C9. Once a call of \<open>nextToken\<close> has left an end-of-input token in \<open>l.token\<close>, every
  further call returns \<open>false\<close> without a panic and leaves the lexer as it is, the
  end-of-input token included: for every input, every letter table, every number
  \<open>Suc m\<close> of calls that ends at such a token and every number \<open>k\<close> of further calls.
\<close>

theorem C9_eof_forever:
  "advance (Suc m) (lex tbl inp) = Inr l \<Longrightarrow> Typ (token l) = typeEOF \<Longrightarrow>
     nextToken l = Inr (False, l) \<and> advance k l = Inr l"
proof -
  assume a: "advance (Suc m) (lex tbl inp) = Inr l" and e: "Typ (token l) = typeEOF"
  have last_call: "\<exists>l0 running. nextToken l0 = Inr (running, l)"
    if "advance (Suc m) l1 = Inr l" for l1
    using that
  proof (induction m arbitrary: l1)
    case 0
    then show ?case by (auto split: sum.splits)
  next
    case (Suc m)
    then show ?case by (auto split: sum.splits simp del: advance.simps(2) simp: advance.simps(2) [of "Suc m"])
  qed
  from last_call [OF a] obtain l0 running where "nextToken l0 = Inr (running, l)" by blast
  then have "lexNext l = None"
    using e by (rule nextToken_EOF_nil)
  then show ?thesis
    using e by (simp add: nextToken_nil advance_nil)
qed


theorem C9_eof_forever_witness:
  "Typ (token (projr (advance (Suc 0) (lex onlyLatin1 [])))) = typeEOF
   \<and> nextToken (projr (advance (Suc 0) (lex onlyLatin1 [])))
       = Inr (False, projr (advance (Suc 0) (lex onlyLatin1 [])))
   \<and> advance 3 (projr (advance (Suc 0) (lex onlyLatin1 [])))
       = Inr (projr (advance (Suc 0) (lex onlyLatin1 [])))"
proof -
  have r: "\<not> isl (advance (Suc 0) (lex onlyLatin1 []))"
    by code_simp
  have e: "Typ (token (projr (advance (Suc 0) (lex onlyLatin1 [])))) = typeEOF"
    by code_simp
  from r have a: "advance (Suc 0) (lex onlyLatin1 []) = Inr (projr (advance (Suc 0) (lex onlyLatin1 [])))"
    by simp
  show ?thesis
    using C9_eof_forever [OF a e, of 3] e by simp
qed

text \<open>
  C2. Whenever Parse returns a tree, for every input, letter table and amount of fuel,
  no node of the tree has two consecutive Text children. The merge itself: when the
  last child of the current node is a Text node, \<open>parseText\<close> adds no node and appends
  one space and the token's value to the value of that child.
\<close>

theorem C2_text_merge:
  "(Parse tbl n inp = Some (Inr t) \<longrightarrow> textMerged t)
   \<and> (currentNode p = Node ty v (cs @ [Node nodeText tv tcs]) # ns \<longrightarrow>
        parseText p =
          Inr (p\<lparr>currentNode :=
                 Node ty v (cs @ [Node nodeText (tv @ '' '' @ Val (token (lexer p))) tcs]) # ns\<rparr>))"
  by (auto simp: Parse_textMerged parseText_def previousSibling_def andThen_def)

theorem C2_text_merge_witness:
  "textMerged (Node ''Root'' [] [Node ''Paragraph'' [] [Node ''Text'' ''the quick fox'' []]])
   \<and> parseText
        \<lparr>tree = Node [] [] [], lexer = (lex onlyLatin1 [])\<lparr>token := mkToken (lex onlyLatin1 []) typeText ''b''\<rparr>,
          currentNode = [Node ''Paragraph'' [] ([] @ [Node nodeText ''a'' []])],
          tagDepth = 0, collectedTokens = []\<rparr>
       = Inr (\<lparr>tree = Node [] [] [], lexer = (lex onlyLatin1 [])\<lparr>token := mkToken (lex onlyLatin1 []) typeText ''b''\<rparr>,
          currentNode = [Node ''Paragraph'' [] ([] @ [Node nodeText ''a'' []])],
          tagDepth = 0, collectedTokens = []\<rparr>\<lparr>currentNode :=
            [Node ''Paragraph'' [] ([] @ [Node nodeText (''a'' @ '' '' @ ''b'') []])]\<rparr>)"
proof -
  have h: "Parse onlyLatin1 20 ''the [quick] fox''
    = Some (Inr (Node ''Root'' [] [Node ''Paragraph'' [] [Node ''Text'' ''the quick fox'' []]]))"
    by code_simp
  show ?thesis
    using C2_text_merge [of onlyLatin1 20 "''the [quick] fox''"
        "Node ''Root'' [] [Node ''Paragraph'' [] [Node ''Text'' ''the quick fox'' []]]"
        "\<lparr>tree = Node [] [] [], lexer = (lex onlyLatin1 [])\<lparr>token := mkToken (lex onlyLatin1 []) typeText ''b''\<rparr>,
          currentNode = [Node ''Paragraph'' [] ([] @ [Node nodeText ''a'' []])],
          tagDepth = 0, collectedTokens = []\<rparr>"
        "''Paragraph''" "[]" "[]" "''a''" "[]" "[]"] h
    by (simp add: mkToken_def)
qed

text \<open>
  The type of the current token and the lexer's buffer after \<open>n\<close> calls of \<open>nextToken\<close>.
\<close>

definition lexedBuffer :: "(rune \<Rightarrow> bool) \<Rightarrow> nat \<Rightarrow> string \<Rightarrow> panic + tokenType \<times> string" where
  "lexedBuffer tbl n inp = map_sum id (\<lambda>l. (Typ (token l), input l)) (advance n (lex tbl inp))"

text \<open>
  C3. The claim: after lexing to end-of-input every whitespace run with a newline has
  collapsed to one newline character in the lexer's buffer, and every run of spaces to
  one space. The buffer is never shortened. After the four calls that lex \<open>a\n\nb\<close> to
  its end-of-input token the buffer still holds both newlines, and after the two calls
  for \<open>a  b\<close> both spaces.
\<close>

theorem C3_buffer_keeps_runs:
  "lexedBuffer onlyLatin1 4 (''a'' @ [CHR 0x0A, CHR 0x0A] @ ''b'')
     = Inr (typeEOF, ''a'' @ [CHR 0x0A, CHR 0x0A] @ ''b'')
   \<and> lexedBuffer onlyLatin1 2 ''a  b'' = Inr (typeEOF, ''a  b'')"
  by code_simp

text \<open>
  C3, as amended. \<open>skipSpace\<close> collapses a whitespace run in what the lexer reads, not in
  the length of the buffer. Let the buffer be \<open>pre\<close>, then the bytes of a run \<open>rs\<close> of
  one or more whitespace characters, then \<open>rest\<close>, which is empty or starts with a
  character that is no whitespace; let \<open>pos\<close> be at the start of the run and no newline
  be counted as skipped. One call of \<open>next\<close> consumes the whole run. When a character
  of the run before its last one is a newline, the last byte of the run is overwritten
  with a newline, nothing else in the buffer changes, and the run is read as one newline;
  \<open>skippedNewlines\<close> is then the number of newlines of the run. Otherwise the buffer is
  left as it was (so a run of spaces stays as it is) and the run is read as its last
  character. After any call of \<open>next\<close> below the end of the input the current and the
  following character are never both whitespace. Whatever the input and the number of
  calls of \<open>nextToken\<close>, the buffer keeps the length of the input.
\<close>

theorem C3_canonical_buffer:
  "(input l = pre @ runBytes rs @ rest \<and> pos l = length pre \<and> rs \<noteq> []
      \<and> (\<forall>r\<in>set rs. IsSpace r) \<and> \<not> IsSpace (fst (DecodeRuneInString rest))
      \<and> skippedNewlines l = 0 \<longrightarrow>
        pos (lexer_next l) = length pre + length (runBytes rs)
        \<and> char (lexer_next l) = (if charNewline \<in> set rs then charNewline else last rs)
        \<and> input (lexer_next l) =
            (if charNewline \<in> set (butlast rs)
             then pre @ butlast (runBytes rs) @ [CHR 0x0A] @ rest else input l)
        \<and> skippedNewlines (lexer_next l) =
            (if charNewline \<in> set (butlast rs) then count_list rs charNewline else 0))
   \<and> (pos k < length (input k) \<longrightarrow>
        \<not> (IsSpace (char (lexer_next k)) \<and> IsSpace (peek (lexer_next k))))
   \<and> (advance n (lex tbl inp) = Inr l' \<longrightarrow> length (input l') = length inp)"
  using next_run_fresh [of l pre rs rest] next_skipSpace_canon(1) [of k]
    advance_length [of n "lex tbl inp" l']
  by (simp add: lex_def)

theorem C3_canonical_buffer_witness:
  "pos (lexer_next ((lex onlyLatin1 (''a'' @ [CHR 0x0A] @ '' b''))\<lparr>pos := 1\<rparr>)) = 3
   \<and> char (lexer_next ((lex onlyLatin1 (''a'' @ [CHR 0x0A] @ '' b''))\<lparr>pos := 1\<rparr>)) = charNewline
   \<and> input (lexer_next ((lex onlyLatin1 (''a'' @ [CHR 0x0A] @ '' b''))\<lparr>pos := 1\<rparr>))
       = ''a'' @ [CHR 0x0A, CHR 0x0A] @ ''b''
   \<and> pos (lexer_next ((lex onlyLatin1 ''a   b'')\<lparr>pos := 1\<rparr>)) = 4
   \<and> char (lexer_next ((lex onlyLatin1 ''a   b'')\<lparr>pos := 1\<rparr>)) = 32
   \<and> input (lexer_next ((lex onlyLatin1 ''a   b'')\<lparr>pos := 1\<rparr>)) = ''a   b''
   \<and> \<not> (IsSpace (char (lexer_next ((lex onlyLatin1 ''a   b'')\<lparr>pos := 1\<rparr>)))
        \<and> IsSpace (peek (lexer_next ((lex onlyLatin1 ''a   b'')\<lparr>pos := 1\<rparr>))))
   \<and> length (input (projr (advance 3 (lex onlyLatin1 (''a'' @ [CHR 0x0A] @ '' b''))))) = 4"
proof -
  define l0 where "l0 = (lex onlyLatin1 (''a'' @ [CHR 0x0A] @ '' b''))\<lparr>pos := 1\<rparr>"
  define l1 where "l1 = (lex onlyLatin1 ''a   b'')\<lparr>pos := 1\<rparr>"
  have h0: "input l0 = ''a'' @ runBytes [10, 32] @ ''b''" "pos l0 = length ''a''"
    "skippedNewlines l0 = 0"
    unfolding l0_def by code_simp+
  have h1: "input l1 = ''a'' @ runBytes [32, 32, 32] @ ''b''" "pos l1 = length ''a''"
    "skippedNewlines l1 = 0" "pos l1 < length (input l1)"
    unfolding l1_def by code_simp+
  have sp: "\<forall>r\<in>set [10, 32]. IsSpace r" "\<forall>r\<in>set [32, 32, 32]. IsSpace r"
    "\<not> IsSpace (fst (DecodeRuneInString ''b''))"
    by code_simp+
  have rb: "runBytes [10, 32] = [CHR 0x0A, CHR '' '']" "runBytes [32, 32, 32] = ''   ''"
    by code_simp+
  have h4: "\<not> isl (advance 3 (lex onlyLatin1 (''a'' @ [CHR 0x0A] @ '' b'')))"
    by code_simp
  then have h5: "advance 3 (lex onlyLatin1 (''a'' @ [CHR 0x0A] @ '' b''))
      = Inr (projr (advance 3 (lex onlyLatin1 (''a'' @ [CHR 0x0A] @ '' b''))))"
    by simp
  have A: "pos (lexer_next l0) = 3 \<and> char (lexer_next l0) = charNewline
      \<and> input (lexer_next l0) = ''a'' @ [CHR 0x0A, CHR 0x0A] @ ''b''
      \<and> length (input (projr (advance 3 (lex onlyLatin1 (''a'' @ [CHR 0x0A] @ '' b''))))) = 4"
    using C3_canonical_buffer [of l0 "''a''" "[10, 32]" "''b''" l1 3 onlyLatin1
        "''a'' @ [CHR 0x0A] @ '' b''"
        "projr (advance 3 (lex onlyLatin1 (''a'' @ [CHR 0x0A] @ '' b'')))"] h0 sp(1,3) h5
    by (simp add: rb charNewline_def)
  have B: "pos (lexer_next l1) = 4 \<and> char (lexer_next l1) = 32
      \<and> input (lexer_next l1) = ''a   b''
      \<and> \<not> (IsSpace (char (lexer_next l1)) \<and> IsSpace (peek (lexer_next l1)))"
    using C3_canonical_buffer [of l1 "''a''" "[32, 32, 32]" "''b''" l1 3 onlyLatin1
        "''a'' @ [CHR 0x0A] @ '' b''"
        "projr (advance 3 (lex onlyLatin1 (''a'' @ [CHR 0x0A] @ '' b'')))"] h1 sp(2,3)
    by (simp add: rb charNewline_def)
  show ?thesis
    using A B unfolding l0_def l1_def by blast
qed

text \<open>
  C4. The claim: in running text outside a list item a single newline is a soft line
  break, and a Terminator is emitted exactly when two or more newlines were collapsed.
  The text behind a heading marker is lexed by the same \<open>lexText\<close>, outside any list
  item, and there one newline ends the text and a Terminator follows: the paragraph
  under a heading needs no blank line.
\<close>

theorem C4_heading_newline:
  "typVals (collectTokens onlyLatin1 10 (''. a'' @ [CHR 0x0A] @ ''b''))
     = Some (Inr [(typeHeading, ''.''), (typeText, ''a''), (typeTerminator, [CHR 0x0A]),
                  (typeText, ''b''), (typeEOF, [])])
   \<and> Parse onlyLatin1 10 (''. a'' @ [CHR 0x0A] @ ''b'')
     = Some (Inr (Node ''Root'' []
         [Node ''HeadingOne'' ''.'' [Node ''Text'' ''a'' []],
          Node ''Paragraph'' [] [Node ''Text'' ''b'' []]]))"
  by code_simp

text \<open>
  A text run that \<open>lexGlobal\<close> enters at a backslash is lexed with \<open>continuousNewline\<close>
  unset as well, so a paragraph that starts with an escaped character ends at its first
  newline. The amended claim below says nothing about this case.
\<close>

lemma escape_initial_paragraph:
  "typVals (collectTokens tbl 10 ([CHR 0x5C] @ ''a'' @ [CHR 0x0A] @ ''b''))
     = Some (Inr [(typeText, ''a''), (typeTerminator, [CHR 0x0A]), (typeText, ''b''), (typeEOF, [])])"
  by code_simp

text \<open>
  C4, as amended. The claim holds for the text of a paragraph that starts at an ordinary
  character, from its first token to the Terminator that ends it, and not for the text
  behind a heading marker.

  \<open>lexGlobal\<close> sets the flag \<open>continuousNewline\<close> when the text starts at a character
  that is no whitespace, backslash, heading character or hyphen, and leaves it unset when
  it starts at a heading character. No other method of the lexer writes the flag: it is
  the same after \<open>lexText\<close>, \<open>lexHeading\<close>, \<open>lexTag\<close>, \<open>lexOpeningSquare\<close>,
  \<open>lexClosingSquare\<close>, \<open>lexTerminator\<close> and \<open>lexHypen\<close>, so it holds for the whole
  paragraph, behind a bracket or a tag as well; the context changes in \<open>lexGlobal\<close> and
  \<open>lexHypen\<close> only.

  Let \<open>lexText\<close> be at a whitespace run \<open>rs\<close> of the buffer that contains a newline and
  is followed by the end of the input or by a character that is no whitespace, outside a
  list item, the character read not being escaped. With the flag set and fewer than two
  newlines in the run, one space is appended to the token and the same Text token goes
  on. With two or more newlines in the run, or with the flag unset (the text of a
  heading), the text run ends and \<open>lexTerminator\<close> makes a Terminator token. The same
  rule in terms of the lexer's counter \<open>skippedNewlines\<close> holds in every state.
\<close>

theorem C4_newline_policy:
  "(input l0 = pre @ runBytes rs @ rest \<and> pos l0 = length pre \<and> rs \<noteq> []
      \<and> (\<forall>r\<in>set rs. IsSpace r) \<and> \<not> IsSpace (fst (DecodeRuneInString rest))
      \<and> skippedNewlines l0 = 0 \<and> charNewline \<in> set rs
      \<and> ctx l0 \<noteq> ctxList \<and> peekBehind (lexer_next l0) \<noteq> charBackslash \<longrightarrow>
        (continuousNewline l0 \<and> count_list rs charNewline < 2 \<longrightarrow>
           lexTextStep l0 = Continue (addToToken (lexer_next l0) 32))
      \<and> (\<not> continuousNewline l0 \<or> 2 \<le> count_list rs charNewline \<longrightarrow>
           lexTextStep l0 = Done (Inr ((lexer_next l0)\<lparr>lexNext := Some LexTerminator\<rparr>))))
   \<and> (char (lexer_next k0) = charNewline \<and> ctx (lexer_next k0) \<noteq> ctxList
      \<and> peekBehind (lexer_next k0) \<noteq> charBackslash \<longrightarrow>
        (continuousNewline (lexer_next k0) \<and> skippedNewlines (lexer_next k0) < 2 \<longrightarrow>
           lexTextStep k0 = Continue (addToToken (lexer_next k0) 32))
      \<and> (\<not> continuousNewline (lexer_next k0) \<or> 2 \<le> skippedNewlines (lexer_next k0) \<longrightarrow>
           lexTextStep k0 = Done (Inr ((lexer_next k0)\<lparr>lexNext := Some LexTerminator\<rparr>))))
   \<and> Typ (token (lexTerminator l)) = typeTerminator
   \<and> (char (lexer_next (resetToken l)) \<noteq> eof \<and> \<not> IsSpace (char (lexer_next (resetToken l)))
        \<and> char (lexer_next (resetToken l)) \<noteq> charBackslash
        \<and> \<not> isHeadingChar (lexer_next (resetToken l))
        \<and> char (lexer_next (resetToken l)) \<noteq> charHyphen \<longrightarrow>
          lexNext (lexGlobal l) = Some LexText \<and> continuousNewline (lexGlobal l))
   \<and> (isHeadingChar (lexer_next (resetToken l)) \<longrightarrow>
          lexNext (lexGlobal l) = Some LexHeading \<and> \<not> continuousNewline (lexGlobal l))
   \<and> (callLexFn f m = Inr m' \<and> f \<noteq> LexGlobal \<longrightarrow>
          continuousNewline m' = continuousNewline m \<and> (f \<noteq> LexHypen \<longrightarrow> ctx m' = ctx m))
   \<and> typVals (collectTokens tbl 10 (''a'' @ [CHR 0x0A] @ ''b''))
        = Some (Inr [(typeText, ''a b''), (typeEOF, [])])
   \<and> typVals (collectTokens tbl 10 (''a'' @ [CHR 0x0A, CHR 0x0A] @ ''b''))
        = Some (Inr [(typeText, ''a''), (typeTerminator, [CHR 0x0A]), (typeText, ''b''),
                     (typeEOF, [])])
   \<and> typVals (collectTokens tbl 20 (''the [quick]'' @ [CHR 0x0A] @ ''fox''))
        = Some (Inr [(typeText, ''the''), (typeOpeningSquare, ''[''), (typeText, ''quick''),
                     (typeClosingSquare, '']''), (typeText, '' fox''), (typeEOF, [])])
   \<and> typVals (collectTokens tbl 20 (''a bold[b]'' @ [CHR 0x0A] @ ''c''))
        = Some (Inr [(typeText, ''a''), (typeTag, ''bold''), (typeOpeningSquare, ''[''),
                     (typeText, ''b''), (typeClosingSquare, '']''), (typeText, '' c''),
                     (typeEOF, [])])
   \<and> typVals (collectTokens tbl 20 (''. a [b]'' @ [CHR 0x0A] @ ''c''))
        = Some (Inr [(typeHeading, ''.''), (typeText, ''a''), (typeOpeningSquare, ''[''),
                     (typeText, ''b''), (typeClosingSquare, '']''),
                     (typeTerminator, [CHR 0x0A]), (typeText, ''c''), (typeEOF, [])])"
proof -
  have ex: "typVals (collectTokens tbl 10 (''a'' @ [CHR 0x0A] @ ''b''))
        = Some (Inr [(typeText, ''a b''), (typeEOF, [])])"
    "typVals (collectTokens tbl 10 (''a'' @ [CHR 0x0A, CHR 0x0A] @ ''b''))
        = Some (Inr [(typeText, ''a''), (typeTerminator, [CHR 0x0A]), (typeText, ''b''),
                     (typeEOF, [])])"
    "typVals (collectTokens tbl 20 (''the [quick]'' @ [CHR 0x0A] @ ''fox''))
        = Some (Inr [(typeText, ''the''), (typeOpeningSquare, ''[''), (typeText, ''quick''),
                     (typeClosingSquare, '']''), (typeText, '' fox''), (typeEOF, [])])"
    "typVals (collectTokens tbl 20 (''a bold[b]'' @ [CHR 0x0A] @ ''c''))
        = Some (Inr [(typeText, ''a''), (typeTag, ''bold''), (typeOpeningSquare, ''[''),
                     (typeText, ''b''), (typeClosingSquare, '']''), (typeText, '' c''),
                     (typeEOF, [])])"
    "typVals (collectTokens tbl 20 (''. a [b]'' @ [CHR 0x0A] @ ''c''))
        = Some (Inr [(typeHeading, ''.''), (typeText, ''a''), (typeOpeningSquare, ''[''),
                     (typeText, ''b''), (typeClosingSquare, '']''),
                     (typeTerminator, [CHR 0x0A]), (typeText, ''c''), (typeEOF, [])])"
    by code_simp+
  have run: "input l0 = pre @ runBytes rs @ rest \<and> pos l0 = length pre \<and> rs \<noteq> []
      \<and> (\<forall>r\<in>set rs. IsSpace r) \<and> \<not> IsSpace (fst (DecodeRuneInString rest))
      \<and> skippedNewlines l0 = 0 \<and> charNewline \<in> set rs
      \<and> ctx l0 \<noteq> ctxList \<and> peekBehind (lexer_next l0) \<noteq> charBackslash \<longrightarrow>
        (continuousNewline l0 \<and> count_list rs charNewline < 2 \<longrightarrow>
           lexTextStep l0 = Continue (addToToken (lexer_next l0) 32))
      \<and> (\<not> continuousNewline l0 \<or> 2 \<le> count_list rs charNewline \<longrightarrow>
           lexTextStep l0 = Done (Inr ((lexer_next l0)\<lparr>lexNext := Some LexTerminator\<rparr>)))"
    using lexTextStep_run [of l0 pre rs rest] by blast
  have mode: "callLexFn f m = Inr m' \<and> f \<noteq> LexGlobal \<longrightarrow>
          continuousNewline m' = continuousNewline m \<and> (f \<noteq> LexHypen \<longrightarrow> ctx m' = ctx m)"
    using callLexFn_mode [of f m m'] by blast
  show ?thesis
    using run mode lexTextStep_newline [of k0] lexGlobal_ordinary [of l] lexGlobal_heading [of l]
      lex_produces(2) [of l] ex
    by blast
qed

theorem C4_newline_policy_witness:
  "lexTextStep ((lex onlyLatin1 (''a'' @ [CHR 0x0A] @ ''b''))\<lparr>pos := 1, continuousNewline := True\<rparr>)
     = Continue (addToToken
         (lexer_next ((lex onlyLatin1 (''a'' @ [CHR 0x0A] @ ''b''))\<lparr>pos := 1, continuousNewline := True\<rparr>)) 32)
   \<and> lexTextStep ((lex onlyLatin1 (''a'' @ [CHR 0x0A] @ ''b''))\<lparr>pos := 1\<rparr>)
     = Done (Inr ((lexer_next ((lex onlyLatin1 (''a'' @ [CHR 0x0A] @ ''b''))\<lparr>pos := 1\<rparr>))
         \<lparr>lexNext := Some LexTerminator\<rparr>))
   \<and> lexTextStep ((lex onlyLatin1 (''a'' @ [CHR 0x0A, CHR 0x0A] @ ''b''))\<lparr>pos := 1, continuousNewline := True\<rparr>)
     = Done (Inr ((lexer_next ((lex onlyLatin1 (''a'' @ [CHR 0x0A, CHR 0x0A] @ ''b''))
                     \<lparr>pos := 1, continuousNewline := True\<rparr>))
         \<lparr>lexNext := Some LexTerminator\<rparr>))
   \<and> lexNext (lexGlobal (lex onlyLatin1 ''a'')) = Some LexText
   \<and> continuousNewline (lexGlobal (lex onlyLatin1 ''a''))
   \<and> lexNext (lexGlobal (lex onlyLatin1 ''.'')) = Some LexHeading
   \<and> \<not> continuousNewline (lexGlobal (lex onlyLatin1 ''.''))
   \<and> continuousNewline (lexClosingSquare ((lex onlyLatin1 '']x'')\<lparr>continuousNewline := True\<rparr>))
   \<and> ctx (lexClosingSquare ((lex onlyLatin1 '']x'')\<lparr>continuousNewline := True\<rparr>)) = ctxNone"
proof -
  define lb where "lb = (lex onlyLatin1 (''a'' @ [CHR 0x0A] @ ''b''))\<lparr>pos := 1\<rparr>"
  define la where "la = lb\<lparr>continuousNewline := True\<rparr>"
  define lc where "lc = (lex onlyLatin1 (''a'' @ [CHR 0x0A, CHR 0x0A] @ ''b''))\<lparr>pos := 1, continuousNewline := True\<rparr>"
  define m where "m = (lex onlyLatin1 '']x'')\<lparr>continuousNewline := True\<rparr>"
  have sp: "[10] \<noteq> ([] :: rune list)" "\<forall>r\<in>set [10]. IsSpace r" "[10, 10] \<noteq> ([] :: rune list)"
    "\<forall>r\<in>set [10, 10]. IsSpace r" "\<not> IsSpace (fst (DecodeRuneInString ''b''))"
    "charNewline \<in> set [10]" "charNewline \<in> set [10, 10]"
    "count_list [10] charNewline < 2" "2 \<le> count_list [10, 10] charNewline"
    by code_simp+
  have a: "input la = ''a'' @ runBytes [10] @ ''b''" "pos la = length ''a''"
    "skippedNewlines la = 0" "ctx la \<noteq> ctxList" "peekBehind (lexer_next la) \<noteq> charBackslash"
    "continuousNewline la" "char (lexer_next la) = charNewline" "ctx (lexer_next la) \<noteq> ctxList"
    unfolding la_def lb_def by code_simp+
  have b: "input lb = ''a'' @ runBytes [10] @ ''b''" "pos lb = length ''a''"
    "skippedNewlines lb = 0" "ctx lb \<noteq> ctxList" "peekBehind (lexer_next lb) \<noteq> charBackslash"
    "\<not> continuousNewline lb"
    unfolding lb_def by code_simp+
  have c: "input lc = ''a'' @ runBytes [10, 10] @ ''b''" "pos lc = length ''a''"
    "skippedNewlines lc = 0" "ctx lc \<noteq> ctxList" "peekBehind (lexer_next lc) \<noteq> charBackslash"
    unfolding lc_def by code_simp+
  have g: "char (lexer_next (resetToken (lex onlyLatin1 ''a''))) \<noteq> eof"
    "\<not> IsSpace (char (lexer_next (resetToken (lex onlyLatin1 ''a''))))"
    "char (lexer_next (resetToken (lex onlyLatin1 ''a''))) \<noteq> charBackslash"
    "\<not> isHeadingChar (lexer_next (resetToken (lex onlyLatin1 ''a'')))"
    "char (lexer_next (resetToken (lex onlyLatin1 ''a''))) \<noteq> charHyphen"
    "isHeadingChar (lexer_next (resetToken (lex onlyLatin1 ''.'')))"
    by code_simp+
  have f: "callLexFn LexClosingSquare m = Inr (lexClosingSquare m)" "LexClosingSquare \<noteq> LexGlobal"
    "LexClosingSquare \<noteq> LexHypen" "continuousNewline m" "ctx m = ctxNone"
    unfolding m_def by (simp_all add: lex_def)
  note A = C4_newline_policy [where ?l0.0 = la and pre = "''a''" and rs = "[10]" and rest = "''b''"
      and ?k0.0 = la and l = "lex onlyLatin1 ''a''" and f = LexClosingSquare and m = m
      and m' = "lexClosingSquare m" and tbl = onlyLatin1]
  note B = C4_newline_policy [where ?l0.0 = lb and pre = "''a''" and rs = "[10]" and rest = "''b''"
      and ?k0.0 = la and l = "lex onlyLatin1 ''.''" and f = LexClosingSquare and m = m
      and m' = "lexClosingSquare m" and tbl = onlyLatin1]
  note C = C4_newline_policy [where ?l0.0 = lc and pre = "''a''" and rs = "[10, 10]" and rest = "''b''"
      and ?k0.0 = la and l = "lex onlyLatin1 ''.''" and f = LexClosingSquare and m = m
      and m' = "lexClosingSquare m" and tbl = onlyLatin1]
  have ra: "lexTextStep la = Continue (addToToken (lexer_next la) 32)"
    using A a sp by blast
  have rb: "lexTextStep lb = Done (Inr ((lexer_next lb)\<lparr>lexNext := Some LexTerminator\<rparr>))"
    using B b sp by blast
  have rc: "lexTextStep lc = Done (Inr ((lexer_next lc)\<lparr>lexNext := Some LexTerminator\<rparr>))"
    using C c sp by blast
  have rg: "lexNext (lexGlobal (lex onlyLatin1 ''a'')) = Some LexText
      \<and> continuousNewline (lexGlobal (lex onlyLatin1 ''a''))"
    using A g by blast
  have rh: "lexNext (lexGlobal (lex onlyLatin1 ''.'')) = Some LexHeading
      \<and> \<not> continuousNewline (lexGlobal (lex onlyLatin1 ''.''))"
    using B g by blast
  have rm: "continuousNewline (lexClosingSquare m) \<and> ctx (lexClosingSquare m) = ctxNone"
    using A f by metis
  show ?thesis
    using ra rb rc rg rh rm unfolding la_def lb_def lc_def m_def by blast
qed

text \<open>
  C5. The depth of a bullet is its \<open>indent\<close> divided by 2, rounded down. \<open>parseList\<close>,
  entered at a bullet that is not shallower than the depth it is given, opens a List
  node under the current node. In its loop, after the item of a bullet of depth \<open>d\<close>
  has been parsed and the next token is a bullet of depth \<open>d'\<close>: for \<open>d < d'\<close> the loop
  calls \<open>parseList\<close> with \<open>d'\<close> (the current node is the current List, so the nested List
  becomes its child behind the item), and afterwards closes the current List when the
  bullet then at hand is shallower than \<open>d\<close>, and goes on otherwise; for \<open>d' < d\<close> it
  closes the current List and returns to its caller; for \<open>d' = d\<close> it goes on with the
  current List. Bullets with indents 0, 2, 0 give List [ListItem, List [ListItem],
  ListItem]; with 0, 2, 4, 0 the last bullet closes two lists; indent 3 is depth 1 and
  indent 1 is depth 0.
\<close>

theorem C5_list_nesting:
  "getListItemDepth t = indent t div 2
   \<and> (\<not> getListItemDepth (token (lexer q)) < d \<longrightarrow>
        parseList (Suc m) q d = andThenF (Some (addNewNode q nodeList [])) (parseListLoop m))
   \<and> (isOneOf p [typeBulletpoint] \<and> parser_nextToken p = Inr p1
        \<and> parseListItem n p1 = Some (Inr p2) \<and> isOneOf p2 [typeBulletpoint] \<longrightarrow>
        (getListItemDepth (token (lexer p)) < getListItemDepth (token (lexer p2)) \<longrightarrow>
           parseListLoop (Suc n) p =
             andThenF (parseList n (p2\<lparr>tagDepth := 0\<rparr>) (getListItemDepth (token (lexer p2))))
               (\<lambda>p4. if isOneOf p4 [typeBulletpoint]
                          \<and> getListItemDepth (token (lexer p4)) < getListItemDepth (token (lexer p))
                      then Some (returnNode p4) else parseListLoop n p4))
      \<and> (getListItemDepth (token (lexer p2)) < getListItemDepth (token (lexer p)) \<longrightarrow>
           parseListLoop (Suc n) p = Some (returnNode (p2\<lparr>tagDepth := 0\<rparr>)))
      \<and> (getListItemDepth (token (lexer p2)) = getListItemDepth (token (lexer p)) \<longrightarrow>
           parseListLoop (Suc n) p = parseListLoop n (p2\<lparr>tagDepth := 0\<rparr>)))
   \<and> Parse tbl 20 (''- a'' @ [CHR 0x0A] @ ''  - b'' @ [CHR 0x0A] @ ''- c'')
     = Some (Inr (Node ''Root'' []
         [Node ''List'' []
           [Node ''ListItem'' [] [Node ''Text'' ''a'' []],
            Node ''List'' [] [Node ''ListItem'' [] [Node ''Text'' ''b'' []]],
            Node ''ListItem'' [] [Node ''Text'' ''c'' []]]]))
   \<and> map_option (map_sum id (map indent))
        (collectTokens tbl 20 (''- a'' @ [CHR 0x0A] @ ''  - b'' @ [CHR 0x0A] @ ''- c''))
     = Some (Inr [0, 0, 2, 0, 0, 0, 0])
   \<and> Parse tbl 30 (''- a'' @ [CHR 0x0A] @ ''  - b'' @ [CHR 0x0A] @ ''    - c'' @ [CHR 0x0A] @ ''- d'')
     = Some (Inr (Node ''Root'' []
         [Node ''List'' []
           [Node ''ListItem'' [] [Node ''Text'' ''a'' []],
            Node ''List'' []
             [Node ''ListItem'' [] [Node ''Text'' ''b'' []],
              Node ''List'' [] [Node ''ListItem'' [] [Node ''Text'' ''c'' []]]],
            Node ''ListItem'' [] [Node ''Text'' ''d'' []]]]))
   \<and> Parse tbl 20 (''- a'' @ [CHR 0x0A] @ ''   - b'')
     = Some (Inr (Node ''Root'' []
         [Node ''List'' []
           [Node ''ListItem'' [] [Node ''Text'' ''a'' []],
            Node ''List'' [] [Node ''ListItem'' [] [Node ''Text'' ''b'' []]]]]))
   \<and> Parse tbl 20 (''- a'' @ [CHR 0x0A] @ '' - b'')
     = Some (Inr (Node ''Root'' []
         [Node ''List'' []
           [Node ''ListItem'' [] [Node ''Text'' ''a'' []],
            Node ''ListItem'' [] [Node ''Text'' ''b'' []]]]))"
proof -
  have d: "getListItemDepth t = indent t div 2"
    by (simp add: getListItemDepth_def INDENT_WIDTH_def)
  have step: "isOneOf p [typeBulletpoint] \<and> parser_nextToken p = Inr p1
        \<and> parseListItem n p1 = Some (Inr p2) \<and> isOneOf p2 [typeBulletpoint] \<longrightarrow>
        (getListItemDepth (token (lexer p)) < getListItemDepth (token (lexer p2)) \<longrightarrow>
           parseListLoop (Suc n) p =
             andThenF (parseList n (p2\<lparr>tagDepth := 0\<rparr>) (getListItemDepth (token (lexer p2))))
               (\<lambda>p4. if isOneOf p4 [typeBulletpoint]
                          \<and> getListItemDepth (token (lexer p4)) < getListItemDepth (token (lexer p))
                      then Some (returnNode p4) else parseListLoop n p4))
      \<and> (getListItemDepth (token (lexer p2)) < getListItemDepth (token (lexer p)) \<longrightarrow>
           parseListLoop (Suc n) p = Some (returnNode (p2\<lparr>tagDepth := 0\<rparr>)))
      \<and> (getListItemDepth (token (lexer p2)) = getListItemDepth (token (lexer p)) \<longrightarrow>
           parseListLoop (Suc n) p = parseListLoop n (p2\<lparr>tagDepth := 0\<rparr>))"
    using parseListLoop_step [of p p1 n p2] by auto
  have ex: "Parse tbl 20 (''- a'' @ [CHR 0x0A] @ ''  - b'' @ [CHR 0x0A] @ ''- c'')
     = Some (Inr (Node ''Root'' []
         [Node ''List'' []
           [Node ''ListItem'' [] [Node ''Text'' ''a'' []],
            Node ''List'' [] [Node ''ListItem'' [] [Node ''Text'' ''b'' []]],
            Node ''ListItem'' [] [Node ''Text'' ''c'' []]]]))"
    "map_option (map_sum id (map indent))
        (collectTokens tbl 20 (''- a'' @ [CHR 0x0A] @ ''  - b'' @ [CHR 0x0A] @ ''- c''))
     = Some (Inr [0, 0, 2, 0, 0, 0, 0])"
    "Parse tbl 30 (''- a'' @ [CHR 0x0A] @ ''  - b'' @ [CHR 0x0A] @ ''    - c'' @ [CHR 0x0A] @ ''- d'')
     = Some (Inr (Node ''Root'' []
         [Node ''List'' []
           [Node ''ListItem'' [] [Node ''Text'' ''a'' []],
            Node ''List'' []
             [Node ''ListItem'' [] [Node ''Text'' ''b'' []],
              Node ''List'' [] [Node ''ListItem'' [] [Node ''Text'' ''c'' []]]],
            Node ''ListItem'' [] [Node ''Text'' ''d'' []]]]))"
    "Parse tbl 20 (''- a'' @ [CHR 0x0A] @ ''   - b'')
     = Some (Inr (Node ''Root'' []
         [Node ''List'' []
           [Node ''ListItem'' [] [Node ''Text'' ''a'' []],
            Node ''List'' [] [Node ''ListItem'' [] [Node ''Text'' ''b'' []]]]]))"
    "Parse tbl 20 (''- a'' @ [CHR 0x0A] @ '' - b'')
     = Some (Inr (Node ''Root'' []
         [Node ''List'' []
           [Node ''ListItem'' [] [Node ''Text'' ''a'' []],
            Node ''ListItem'' [] [Node ''Text'' ''b'' []]]]))"
    by code_simp+
  show ?thesis
    using d step ex parseList_opens [of q d m] by blast
qed


theorem C5_list_nesting_witness:
  "(\<exists>p p1 p2. isOneOf p [typeBulletpoint] \<and> parser_nextToken p = Inr p1
       \<and> parseListItem 5 p1 = Some (Inr p2) \<and> isOneOf p2 [typeBulletpoint]
       \<and> getListItemDepth (token (lexer p)) < getListItemDepth (token (lexer p2))
       \<and> parseListLoop (Suc 5) p =
             andThenF (parseList 5 (p2\<lparr>tagDepth := 0\<rparr>) (getListItemDepth (token (lexer p2))))
               (\<lambda>p4. if isOneOf p4 [typeBulletpoint]
                          \<and> getListItemDepth (token (lexer p4)) < getListItemDepth (token (lexer p))
                      then Some (returnNode p4) else parseListLoop 5 p4)
       \<and> parseList (Suc 4) (p2\<lparr>tagDepth := 0\<rparr>) (getListItemDepth (token (lexer p2)))
           = andThenF (Some (addNewNode (p2\<lparr>tagDepth := 0\<rparr>) nodeList [])) (parseListLoop 4))
   \<and> (\<exists>p p1 p2. isOneOf p [typeBulletpoint] \<and> parser_nextToken p = Inr p1
       \<and> parseListItem 5 p1 = Some (Inr p2) \<and> isOneOf p2 [typeBulletpoint]
       \<and> getListItemDepth (token (lexer p2)) < getListItemDepth (token (lexer p))
       \<and> parseListLoop (Suc 5) p = Some (returnNode (p2\<lparr>tagDepth := 0\<rparr>)))
   \<and> (\<exists>p p1 p2. isOneOf p [typeBulletpoint] \<and> parser_nextToken p = Inr p1
       \<and> parseListItem 5 p1 = Some (Inr p2) \<and> isOneOf p2 [typeBulletpoint]
       \<and> getListItemDepth (token (lexer p2)) = getListItemDepth (token (lexer p))
       \<and> parseListLoop (Suc 5) p = parseListLoop 5 (p2\<lparr>tagDepth := 0\<rparr>))"
proof -
  define start where "start = (\<lambda>inp. projr (parser_nextToken
    \<lparr>tree = Node nodeRoot [] [], lexer = lex onlyLatin1 inp, currentNode = [Node nodeRoot [] []],
     tagDepth = 0, collectedTokens = []\<rparr>))"
  define item where "item = (\<lambda>p. projr (the (parseListItem 5 (projr (parser_nextToken p)))))"
  define pa where "pa = start (''- a'' @ [CHR 0x0A] @ ''  - b'' @ [CHR 0x0A] @ ''- c'')"
  define pb where "pb = projr (addNewNode ((item pa)\<lparr>tagDepth := 0\<rparr>) nodeList [])"
  define pc where "pc = start (''- a'' @ [CHR 0x0A] @ ''- b'')"
  have a: "isOneOf pa [typeBulletpoint]" "\<not> isl (parser_nextToken pa)"
    "case parseListItem 5 (projr (parser_nextToken pa)) of Some (Inr y) \<Rightarrow> True | _ \<Rightarrow> False"
    "isOneOf (item pa) [typeBulletpoint]"
    "getListItemDepth (token (lexer pa)) < getListItemDepth (token (lexer (item pa)))"
    unfolding pa_def start_def item_def by code_simp+
  have b: "isOneOf pb [typeBulletpoint]" "\<not> isl (parser_nextToken pb)"
    "case parseListItem 5 (projr (parser_nextToken pb)) of Some (Inr y) \<Rightarrow> True | _ \<Rightarrow> False"
    "isOneOf (item pb) [typeBulletpoint]"
    "getListItemDepth (token (lexer (item pb))) < getListItemDepth (token (lexer pb))"
    unfolding pb_def pa_def start_def item_def by code_simp+
  have c: "isOneOf pc [typeBulletpoint]" "\<not> isl (parser_nextToken pc)"
    "case parseListItem 5 (projr (parser_nextToken pc)) of Some (Inr y) \<Rightarrow> True | _ \<Rightarrow> False"
    "isOneOf (item pc) [typeBulletpoint]"
    "getListItemDepth (token (lexer (item pc))) = getListItemDepth (token (lexer pc))"
    unfolding pc_def start_def item_def by code_simp+
  have ia: "parser_nextToken pa = Inr (projr (parser_nextToken pa))"
    "parseListItem 5 (projr (parser_nextToken pa)) = Some (Inr (item pa))"
    using a(2,3) by (simp_all add: item_def some_inr_collapse)
  have ib: "parser_nextToken pb = Inr (projr (parser_nextToken pb))"
    "parseListItem 5 (projr (parser_nextToken pb)) = Some (Inr (item pb))"
    using b(2,3) by (simp_all add: item_def some_inr_collapse)
  have ic: "parser_nextToken pc = Inr (projr (parser_nextToken pc))"
    "parseListItem 5 (projr (parser_nextToken pc)) = Some (Inr (item pc))"
    using c(2,3) by (simp_all add: item_def some_inr_collapse)
  note Ta = C5_list_nesting [of zeroToken "(item pa)\<lparr>tagDepth := 0\<rparr>"
        "getListItemDepth (token (lexer (item pa)))" 4 pa "projr (parser_nextToken pa)" 5 "item pa"
        onlyLatin1]
  have ta: "parseListLoop (Suc 5) pa =
      andThenF (parseList 5 ((item pa)\<lparr>tagDepth := 0\<rparr>) (getListItemDepth (token (lexer (item pa)))))
        (\<lambda>p4. if isOneOf p4 [typeBulletpoint]
                   \<and> getListItemDepth (token (lexer p4)) < getListItemDepth (token (lexer pa))
               then Some (returnNode p4) else parseListLoop 5 p4)"
    using Ta a(1,4,5) ia by blast
  have "\<not> getListItemDepth (token (lexer ((item pa)\<lparr>tagDepth := 0\<rparr>)))
      < getListItemDepth (token (lexer (item pa)))"
    by simp
  with Ta have ta2:
    "parseList (Suc 4) ((item pa)\<lparr>tagDepth := 0\<rparr>) (getListItemDepth (token (lexer (item pa))))
       = andThenF (Some (addNewNode ((item pa)\<lparr>tagDepth := 0\<rparr>) nodeList [])) (parseListLoop 4)"
    by blast
  have tb: "parseListLoop (Suc 5) pb = Some (returnNode ((item pb)\<lparr>tagDepth := 0\<rparr>))"
    using C5_list_nesting [of zeroToken pb 0 0 pb "projr (parser_nextToken pb)" 5 "item pb"
        onlyLatin1]
      b(1,4,5) ib by blast
  have tc: "parseListLoop (Suc 5) pc = parseListLoop 5 ((item pc)\<lparr>tagDepth := 0\<rparr>)"
    using C5_list_nesting [of zeroToken pc 0 0 pc "projr (parser_nextToken pc)" 5 "item pc"
        onlyLatin1]
      c(1,4,5) ic by blast
  show ?thesis
    using a(1,4,5) ia ta ta2 b(1,4,5) ib tb c(1,4,5) ic tc by blast
qed


text \<open>
  C6. The claim gives the tree of the input of two dots, a newline and \<open>a\<close> as Root
  [Error(".."), Paragraph [Text("a")]], in the notation in which Text("a") is the Text
  node of value \<open>a\<close>. The value of the Error node is not the literal: Parse does not
  return that tree.
\<close>

theorem C6_error_value:
  "Parse onlyLatin1 20 (''..'' @ [CHR 0x0A] @ ''a'')
     \<noteq> Some (Inr (Node ''Root'' []
           [Node ''ERROR'' ''..'' [], Node ''Paragraph'' [] [Node ''Text'' ''a'' []]]))"
  by code_simp

text \<open>
  C6, as amended. For a Heading token whose value \<open>v\<close> is none of the six recognised
  ones, \<open>parseHeading\<close> adds an Error node whose value is the message
  \<open>Invalid heading value: \<close> followed by \<open>v\<close>, and goes on as for a heading: the rich
  text behind the marker is parsed into that node. The input of the claim parses to
  Root [Error, Paragraph [Text a]] with that message as the Error node's value, and
  rich text on the line of the marker becomes the content of the Error node.
\<close>

theorem C6_invalid_heading:
  "(Val (token (lexer p)) = v
      \<and> v \<notin> set [nodeHeadingOneValue, nodeHeadingTwoValue, nodeHeadingThreeValue,
           nodeHeadingFourValue, nodeHeadingFiveValue, nodeHeadingSixValue] \<longrightarrow>
      parseHeading n p =
        andThenF (Some (andThen (addNewNode p nodeError (''Invalid heading value: '' @ v))
                          parser_nextToken))
          (\<lambda>p1. andThenF (parseRichText n p1) (\<lambda>p2. Some (returnNode p2))))
   \<and> Parse tbl 20 (''..'' @ [CHR 0x0A] @ ''a'')
     = Some (Inr (Node ''Root'' []
         [Node ''ERROR'' ''Invalid heading value: ..'' [],
          Node ''Paragraph'' [] [Node ''Text'' ''a'' []]]))
   \<and> Parse tbl 20 (''.. a bold[b]'' @ [CHR 0x0A] @ ''c'')
     = Some (Inr (Node ''Root'' []
         [Node ''ERROR'' ''Invalid heading value: ..''
            [Node ''Text'' ''a'' [], Node ''BoldTag'' [] [Node ''Text'' ''b'' []]],
          Node ''Paragraph'' [] [Node ''Text'' ''c'' []]]))"
proof -
  have ex: "Parse tbl 20 (''..'' @ [CHR 0x0A] @ ''a'')
     = Some (Inr (Node ''Root'' []
         [Node ''ERROR'' ''Invalid heading value: ..'' [],
          Node ''Paragraph'' [] [Node ''Text'' ''a'' []]]))"
    "Parse tbl 20 (''.. a bold[b]'' @ [CHR 0x0A] @ ''c'')
     = Some (Inr (Node ''Root'' []
         [Node ''ERROR'' ''Invalid heading value: ..''
            [Node ''Text'' ''a'' [], Node ''BoldTag'' [] [Node ''Text'' ''b'' []]],
          Node ''Paragraph'' [] [Node ''Text'' ''c'' []]]))"
    by code_simp+
  show ?thesis
    using parseHeading_invalid [of p v n] ex by blast
qed

theorem C6_invalid_heading_witness:
  "\<exists>p. Val (token (lexer p)) = ''..''
     \<and> ''..'' \<notin> set [nodeHeadingOneValue, nodeHeadingTwoValue, nodeHeadingThreeValue,
           nodeHeadingFourValue, nodeHeadingFiveValue, nodeHeadingSixValue]
     \<and> parseHeading 5 p =
        andThenF (Some (andThen (addNewNode p nodeError (''Invalid heading value: '' @ ''..''))
                          parser_nextToken))
          (\<lambda>p1. andThenF (parseRichText 5 p1) (\<lambda>p2. Some (returnNode p2)))"
proof -
  define p where "p = projr (parser_nextToken
    \<lparr>tree = Node nodeRoot [] [], lexer = lex onlyLatin1 (''..'' @ [CHR 0x0A] @ ''a''),
     currentNode = [Node nodeRoot [] []], tagDepth = 0, collectedTokens = []\<rparr>)"
  have a: "Val (token (lexer p)) = ''..''"
    "''..'' \<notin> set [nodeHeadingOneValue, nodeHeadingTwoValue, nodeHeadingThreeValue,
           nodeHeadingFourValue, nodeHeadingFiveValue, nodeHeadingSixValue]"
    unfolding p_def by code_simp+
  show ?thesis
    using C6_invalid_heading [of p "''..''" 5 onlyLatin1] a by blast
qed

text \<open>
  C7. The claim: a tag that is still open at a Bulletpoint or Terminator token is closed
  with what it has collected, without an Error node, and the tag depth is reset to zero
  for every new list item. The first part holds in every state (lemma
  \<open>unterminated_tag_closes\<close>). The reset does not: \<open>parseList\<close> sets \<open>tagDepth\<close> to zero
  after each item it has parsed, not before the first one, and nothing resets it when a
  paragraph or a heading ends with a tag still open. So the first item of a list that
  follows such a paragraph is parsed at depth one. In the input of a paragraph \<open>bold[x\<close>,
  a blank line and the item \<open>- a] b\<close>, the parser is at the bullet with tag depth 1; the
  closing bracket of the item, which is skipped when the same item stands alone, ends
  the item and the list, and the rest of the item becomes a paragraph of its own.
\<close>

theorem C7_first_item_inherits_depth:
  "Parse tbl 30 (''bold[x'' @ [CHR 0x0A, CHR 0x0A] @ ''- a] b'')
     = Some (Inr (Node ''Root'' []
         [Node ''Paragraph'' [] [Node ''BoldTag'' [] [Node ''Text'' ''x'' []]],
          Node ''List'' [] [Node ''ListItem'' [] [Node ''Text'' ''a'' []]],
          Node ''Paragraph'' [] [Node ''Text'' ''b'' []]]))
   \<and> Parse tbl 30 ''- a] b''
     = Some (Inr (Node ''Root'' []
         [Node ''List'' [] [Node ''ListItem'' [] [Node ''Text'' ''a b'' []]]]))
   \<and> map_option (map_sum id (\<lambda>p. (Typ (token (lexer p)), tagDepth p)))
        (andThenF (Some (parser_nextToken
             \<lparr>tree = Node nodeRoot [] [],
               lexer = lex tbl (''bold[x'' @ [CHR 0x0A, CHR 0x0A] @ ''- a] b''),
               currentNode = [Node nodeRoot [] []], tagDepth = 0, collectedTokens = []\<rparr>))
           (\<lambda>p. andThenF (parseParagraph 10 p) (\<lambda>p. Some (parser_nextToken p))))
     = Some (Inr (typeBulletpoint, 1))"
  by code_simp

text \<open>
  C10. The claim: for every input, an OpeningSquare token that follows no Tag token and a
  ClosingSquare token at tag depth zero create no node. At the top level they do:
  \<open>parseGlobal\<close> opens a Paragraph for every token that is no Heading and no
  Bulletpoint, a bracket token included. The input of one opening bracket, and that of
  one closing bracket, is the bracket token and the end-of-input token, and parses to
  Root [Paragraph []], while the empty input parses to Root [].
\<close>

theorem C10_lone_bracket_paragraph:
  "Parse onlyLatin1 10 ''['' = Some (Inr (Node ''Root'' [] [Node ''Paragraph'' [] []]))
   \<and> typVals (collectTokens onlyLatin1 10 ''['')
       = Some (Inr [(typeOpeningSquare, ''[''), (typeEOF, [])])
   \<and> Parse onlyLatin1 10 '']'' = Some (Inr (Node ''Root'' [] [Node ''Paragraph'' [] []]))
   \<and> typVals (collectTokens onlyLatin1 10 '']'')
       = Some (Inr [(typeClosingSquare, '']''), (typeEOF, [])])
   \<and> Parse onlyLatin1 10 [] = Some (Inr (Node ''Root'' [] []))"
  by code_simp

text \<open>
  C10, as amended. Within rich text such a token is skipped. When \<open>parseRichText\<close> is
  at an OpeningSquare token, or at a ClosingSquare token with tag depth zero, it does
  nothing but read the next token and go on; reading a token changes neither the tree
  under construction, nor the current node, nor the tag depth. So the token adds no node,
  no Error node and no character to a Text node: \<open>the [quick] fox\<close> parses to one
  Paragraph with the single Text node \<open>the quick fox\<close>. (At the top level a Paragraph
  is opened first, as for any other token.)
\<close>

theorem C10_brackets_skipped:
  "(Typ (token (lexer p)) = typeOpeningSquare
      \<or> (Typ (token (lexer p)) = typeClosingSquare \<and> tagDepth p = 0) \<longrightarrow>
      parseRichText (Suc n) p = andThenF (Some (parser_nextToken p)) (parseRichText n))
   \<and> (parser_nextToken p = Inr p' \<longrightarrow>
        currentNode p' = currentNode p \<and> tree p' = tree p \<and> tagDepth p' = tagDepth p)
   \<and> Parse tbl 20 ''the [quick] fox''
     = Some (Inr (Node ''Root'' [] [Node ''Paragraph'' [] [Node ''Text'' ''the quick fox'' []]]))
   \<and> typVals (collectTokens tbl 20 ''the [quick] fox'')
     = Some (Inr [(typeText, ''the''), (typeOpeningSquare, ''[''), (typeText, ''quick''),
                  (typeClosingSquare, '']''), (typeText, ''fox''), (typeEOF, [])])"
proof -
  have ex: "Parse tbl 20 ''the [quick] fox''
     = Some (Inr (Node ''Root'' [] [Node ''Paragraph'' [] [Node ''Text'' ''the quick fox'' []]]))"
    "typVals (collectTokens tbl 20 ''the [quick] fox'')
     = Some (Inr [(typeText, ''the''), (typeOpeningSquare, ''[''), (typeText, ''quick''),
                  (typeClosingSquare, '']''), (typeText, ''fox''), (typeEOF, [])])"
    by code_simp+
  show ?thesis
    using parseRichText_skip [of p n] parser_nextToken_frame [of p p'] ex by blast
qed

theorem C10_brackets_skipped_witness:
  "(\<exists>p p'. Typ (token (lexer p)) = typeOpeningSquare \<and> parser_nextToken p = Inr p'
       \<and> parseRichText (Suc 5) p = andThenF (Some (parser_nextToken p)) (parseRichText 5)
       \<and> currentNode p' = currentNode p \<and> tree p' = tree p \<and> tagDepth p' = tagDepth p)
   \<and> (\<exists>p. Typ (token (lexer p)) = typeClosingSquare \<and> tagDepth p = 0
       \<and> parseRichText (Suc 5) p = andThenF (Some (parser_nextToken p)) (parseRichText 5))"
proof -
  define p0 where "p0 = \<lparr>tree = Node nodeRoot [] [], lexer = lex onlyLatin1 ''the [quick] fox'',
     currentNode = [Node nodeRoot [] []], tagDepth = 0, collectedTokens = []\<rparr>"
  define p2 where "p2 = projr (parser_nextToken (projr (parser_nextToken p0)))"
  define p4 where "p4 = projr (parser_nextToken (projr (parser_nextToken p2)))"
  have a: "Typ (token (lexer p2)) = typeOpeningSquare" "\<not> isl (parser_nextToken p2)"
    "Typ (token (lexer p4)) = typeClosingSquare" "tagDepth p4 = 0"
    unfolding p4_def p2_def p0_def by code_simp+
  have n: "parser_nextToken p2 = Inr (projr (parser_nextToken p2))"
    using a(2) by simp
  note T2 = C10_brackets_skipped [of p2 5 "projr (parser_nextToken p2)" onlyLatin1]
  note T4 = C10_brackets_skipped [of p4 5 p4 onlyLatin1]
  have b: "parseRichText (Suc 5) p2 = andThenF (Some (parser_nextToken p2)) (parseRichText 5)"
    "currentNode (projr (parser_nextToken p2)) = currentNode p2
     \<and> tree (projr (parser_nextToken p2)) = tree p2
     \<and> tagDepth (projr (parser_nextToken p2)) = tagDepth p2"
    using T2 a(1) n by blast+
  have c: "parseRichText (Suc 5) p4 = andThenF (Some (parser_nextToken p4)) (parseRichText 5)"
    using T4 a(3,4) by blast
  show ?thesis
    using a(1,3,4) n b c by blast
qed

end
